theory Spec2Isabelle
  imports Main "HOL-Library.Word"
begin

section \<open>The entity-component store of \<^verbatim>\<open>ec.hpp\<close>\<close>

text \<open>
  The header \<^verbatim>\<open>ec.hpp\<close> keeps, per \<^verbatim>\<open>World\<close>, a liveness table, an entity
  counter, a registry from component types to slots and one pool per slot. The
  operations mutate the \<^verbatim>\<open>World\<close> they are given; here each takes the world and
  returns the new one. Reads and writes that C++ leaves undefined (an index past the
  end of a vector, a dereferenced null \<^verbatim>\<open>unique_ptr\<close>) are the result \<open>None\<close>.
\<close>

subsection \<open>Data\<close>

text \<open>
  \<^verbatim>\<open>using Entity = std::uint32_t\<close>: the entity counter wraps around at \<open>2 ^ 32\<close>.
  Sizes and slots are \<^verbatim>\<open>std::size_t\<close>, taken to be 64 bits wide; they count elements
  of vectors held in memory, do not overflow, and are modelled as \<open>nat\<close>.
\<close>

type_synonym Entity = "32 word"

datatype Status = OK | ERROR

text \<open>
  What an operation template uses of its type argument \<^verbatim>\<open>T\<close>: the key
  \<^verbatim>\<open>typeid(T).hash_code()\<close> of the registry, by which alone the code tells types
  apart, and the value-initialised \<^verbatim>\<open>T()\<close> that \<^verbatim>\<open>std::vector<T>::resize\<close> appends.
  Component values of all types live in one value type \<open>'v\<close>.
\<close>

record 'v ctype =
  hash_code :: nat
  value_init :: "'v"

text \<open>
  \<^verbatim>\<open>Pool<T>\<close>: the vectors \<^verbatim>\<open>data\<close> and \<^verbatim>\<open>mask\<close>. The mask holds only the
  characters 0 and 1 and is only tested for being non-zero, so it is a list of
  booleans. \<open>fill_value\<close> is the \<^verbatim>\<open>T()\<close> of the pool's dynamic type, which the
  virtual \<^verbatim>\<open>ensureSize\<close> appends.
\<close>

record 'v Pool =
  data :: "'v list"
  mask_flags :: "bool list"
  fill_value :: "'v"

record 'v World =
  alive :: "bool list"
  nextEntity :: Entity
  pools :: "'v Pool option list"
  typeMap :: "nat \<rightharpoonup> nat"
  typeCounter :: nat

text \<open>The constructor only reserves capacity: every container starts empty.\<close>

definition new_World :: "'v World" where
  "new_World = \<lparr>alive = [], nextEntity = 0, pools = [], typeMap = Map.empty, typeCounter = 0\<rparr>"

subsection \<open>Operations\<close>

text \<open>\<^verbatim>\<open>std::vector::resize(n, x)\<close>: truncates to \<open>n\<close> elements or appends copies of \<open>x\<close>.\<close>

definition resize :: "nat \<Rightarrow> 'a \<Rightarrow> 'a list \<Rightarrow> 'a list" where
  "resize n x xs = take n xs @ replicate (n - length xs) x"

definition ensureSize :: "nat \<Rightarrow> 'v Pool \<Rightarrow> 'v Pool" where
  "ensureSize n p =
     (if length (data p) < n
      then p\<lparr>data := resize n (fill_value p) (data p),
             mask_flags := resize n False (mask_flags p)\<rparr>
      else p)"

text \<open>
  \<^verbatim>\<open>World::getTypeId<T>\<close>: the slot of \<^verbatim>\<open>T\<close>, assigned from \<^verbatim>\<open>typeCounter\<close> at
  the first call, when the table of pools also grows by null entries.
\<close>

definition getTypeId :: "'v ctype \<Rightarrow> 'v World \<Rightarrow> nat \<times> 'v World" where
  "getTypeId T w =
     (case typeMap w (hash_code T) of
        Some tid \<Rightarrow> (tid, w)
      | None \<Rightarrow>
          (let tid = typeCounter w;
               w1 = w\<lparr>typeCounter := tid + 1, typeMap := (typeMap w)(hash_code T \<mapsto> tid)\<rparr>
           in (tid, if tid \<ge> length (pools w1)
                    then w1\<lparr>pools := resize (tid + 1) None (pools w1)\<rparr>
                    else w1)))"

definition ensureEntity :: "nat \<Rightarrow> 'v World \<Rightarrow> 'v World" where
  "ensureEntity e w =
     (if e \<ge> length (alive w)
      then w\<lparr>alive := resize (e + 1) False (alive w),
             pools := map (map_option (ensureSize (e + 1))) (pools w)\<rparr>
      else w)"

text \<open>
  \<^verbatim>\<open>World::ensurePool<T>\<close> indexes \<^verbatim>\<open>pools[typeId]\<close> unchecked. The reference it
  returns is the pool now stored in that slot.
\<close>

definition ensurePool :: "'v ctype \<Rightarrow> nat \<Rightarrow> 'v World \<Rightarrow> ('v Pool \<times> 'v World) option" where
  "ensurePool T typeId w =
     (if typeId < length (pools w)
      then (let p = (case pools w ! typeId of
                       None \<Rightarrow> \<lparr>data = [], mask_flags = [], fill_value = value_init T\<rparr>
                     | Some q \<Rightarrow> q);
                pl = ensureSize (length (alive w)) p
            in Some (pl, w\<lparr>pools := (pools w)[typeId := Some pl]\<rparr>))
      else None)"

definition create_entity :: "'v World \<Rightarrow> Entity \<times> 'v World" where
  "create_entity w =
     (let id = nextEntity w;
          w1 = w\<lparr>nextEntity := id + 1\<rparr>;
          w2 = ensureEntity (unat id) w1
      in (id, w2\<lparr>alive := (alive w2)[unat id := True]\<rparr>))"

definition destroy_entity :: "'v World \<Rightarrow> Entity \<Rightarrow> 'v World" where
  "destroy_entity w e =
     (if unat e < length (alive w) then w\<lparr>alive := (alive w)[unat e := False]\<rparr> else w)"

definition add_component :: "'v ctype \<Rightarrow> 'v World \<Rightarrow> Entity \<Rightarrow> 'v \<Rightarrow> (Status \<times> 'v World) option" where
  "add_component T w e c =
     (if unat e \<ge> length (alive w) \<or> \<not> alive w ! unat e then Some (ERROR, w)
      else
        (let (tid, w1) = getTypeId T w in
         case ensurePool T tid w1 of
           None \<Rightarrow> None
         | Some (pool, w2) \<Rightarrow>
             if unat e < length (data pool) \<and> unat e < length (mask_flags pool)
             then Some (OK, w2\<lparr>pools := (pools w2)[tid :=
                     Some (pool\<lparr>data := (data pool)[unat e := c],
                                mask_flags := (mask_flags pool)[unat e := True]\<rparr>)]\<rparr>)
             else None))"

text \<open>
  \<^verbatim>\<open>get_component<T>\<close> returns a pointer into the pool or \<^verbatim>\<open>nullptr\<close>: here the
  value pointed to, or \<open>None\<close>, next to the world (which \<^verbatim>\<open>getTypeId\<close> may have
  changed). It tests \<^verbatim>\<open>e\<close> against \<^verbatim>\<open>data.size()\<close> and then reads \<^verbatim>\<open>mask[e]\<close>.
\<close>

definition get_component :: "'v ctype \<Rightarrow> 'v World \<Rightarrow> Entity \<Rightarrow> ('v option \<times> 'v World) option" where
  "get_component T w e =
     (let (tid, w1) = getTypeId T w in
      if tid \<ge> length (pools w1) then Some (None, w1)
      else case pools w1 ! tid of
             None \<Rightarrow> Some (None, w1)
           | Some pool \<Rightarrow>
               if unat e \<ge> length (data pool) then Some (None, w1)
               else if unat e < length (mask_flags pool)
                    then (if mask_flags pool ! unat e
                          then Some (Some (data pool ! unat e), w1)
                          else Some (None, w1))
                    else None)"

definition remove_component :: "'v ctype \<Rightarrow> 'v World \<Rightarrow> Entity \<Rightarrow> Status \<times> 'v World" where
  "remove_component T w e =
     (let (tid, w1) = getTypeId T w in
      if tid \<ge> length (pools w1) then (ERROR, w1)
      else case pools w1 ! tid of
             None \<Rightarrow> (ERROR, w1)
           | Some pool \<Rightarrow>
               (OK, if unat e < length (mask_flags pool)
                    then w1\<lparr>pools := (pools w1)[tid :=
                           Some (pool\<lparr>mask_flags := (mask_flags pool)[unat e := False]\<rparr>)]\<rparr>
                    else w1))"


subsection \<open>The query\<close>

text \<open>
  \<^verbatim>\<open>query<Ts...>\<close> first resolves the slots of \<^verbatim>\<open>Ts\<close> from left to right (a braced
  initialiser list).
\<close>

fun getTypeIds :: "'v ctype list \<Rightarrow> 'v World \<Rightarrow> nat list \<times> 'v World" where
  "getTypeIds [] w = ([], w)"
| "getTypeIds (T # Ts) w =
     (let (tid, w1) = getTypeId T w;
          (tids, w2) = getTypeIds Ts w1
      in (tid # tids, w2))"

text \<open>
  One run of the lambda in the fold expression, for entity \<^verbatim>\<open>e\<close> and one slot:
  \<^verbatim>\<open>*static_cast<Pool<Ts>*>(w.pools[types[idx]].get())\<close> is undefined for a slot past
  the table or holding no pool (outer \<open>None\<close>); otherwise the lambda either clears
  \<^verbatim>\<open>match\<close> (inner \<open>None\<close>) or records the address of \<^verbatim>\<open>pl.data[e]\<close>, modelled by
  the value stored there.
\<close>

definition probe :: "'v World \<Rightarrow> Entity \<Rightarrow> nat \<Rightarrow> 'v option option" where
  "probe w e tid =
     (if tid < length (pools w)
      then (case pools w ! tid of
              None \<Rightarrow> None
            | Some pl \<Rightarrow>
                if unat e \<ge> length (mask_flags pl) \<or> \<not> mask_flags pl ! unat e then Some None
                else if unat e < length (data pl) then Some (Some (data pl ! unat e))
                else None)
      else None)"

text \<open>
  The visitor receives \<^verbatim>\<open>e\<close> and pointers into the pools and may change the values
  they point to. A visitor is modelled by what it stores through the pointers: a
  function from \<^verbatim>\<open>e\<close> and the values pointed to, to the values it leaves there.
  \<open>store_at\<close> writes one value through one pointer, \<open>write_back\<close> all of them, in
  the order of the type list (two pointers are the same when a type occurs twice).
\<close>

definition store_at :: "Entity \<Rightarrow> nat \<times> 'v \<Rightarrow> 'v World \<Rightarrow> 'v World" where
  "store_at e tv w =
     w\<lparr>pools := (pools w)[fst tv :=
          map_option (\<lambda>pl. pl\<lparr>data := (data pl)[unat e := snd tv]\<rparr>) (pools w ! fst tv)]\<rparr>"

definition write_back :: "'v World \<Rightarrow> nat list \<Rightarrow> Entity \<Rightarrow> 'v list \<Rightarrow> 'v World" where
  "write_back w types e vals = fold (store_at e) (zip types vals) w"

text \<open>A visitor that only reads.\<close>

definition keep :: "Entity \<Rightarrow> 'v list \<Rightarrow> 'v list" where
  "keep e vals = vals"

text \<open>
  The loop \<^verbatim>\<open>for (Entity e = 0; e < w.nextEntity; ++e)\<close>. The fold expression runs
  the lambda for every type, also after \<^verbatim>\<open>match\<close> has become false. On a match the
  visitor \<^verbatim>\<open>f\<close> is called with \<^verbatim>\<open>e\<close> and the pointers; \<open>calls\<close> collects these calls
  in order, each with the values the pointers refer to at the call.
\<close>

function query_loop ::
  "'v World \<Rightarrow> nat list \<Rightarrow> (Entity \<Rightarrow> 'v list \<Rightarrow> 'v list) \<Rightarrow> Entity \<Rightarrow>
   (Entity \<times> 'v list) list \<Rightarrow> ((Entity \<times> 'v list) list \<times> 'v World) option" where
  "query_loop w types f e calls =
     (if e < nextEntity w
      then (if unat e \<ge> length (alive w) \<or> \<not> alive w ! unat e
            then query_loop w types f (e + 1) calls
            else (case those (map (probe w e) types) of
                    None \<Rightarrow> None
                  | Some ptrs \<Rightarrow>
                      if list_all (\<lambda>p. p \<noteq> None) ptrs
                      then query_loop (write_back w types e (f e (map the ptrs))) types f (e + 1)
                             (calls @ [(e, map the ptrs)])
                      else query_loop w types f (e + 1) calls))
      else Some (calls, w))"
  by pat_completeness auto
termination
proof -
  have dec: "unat n - unat (e + 1) < unat n - unat e" if less: "e < n" for e n :: Entity
  proof -
    have a: "unat e < unat n"
      using less by (simp add: word_less_nat_alt)
    have b: "unat n < 2 ^ 32"
      using unsigned_less [of n] by simp
    have "unat (e + 1) = (unat e + 1) mod 2 ^ 32"
      by (simp add: unat_word_ariths)
    also have "\<dots> = unat e + 1"
      using a b by simp
    finally show ?thesis
      using a by simp
  qed
  have nx: "nextEntity (fold (store_at e) tvs w) = nextEntity w"
    for e :: Entity and tvs :: "(nat \<times> 'v) list" and w :: "'v World"
    by (induction tvs arbitrary: w) (simp_all add: store_at_def)
  show ?thesis
    by (relation "measure (\<lambda>(w, types, f, e, calls). unat (nextEntity w) - unat e)")
       (simp_all add: dec nx write_back_def)
qed

declare query_loop.simps [simp del]

definition query ::
  "'v ctype list \<Rightarrow> 'v World \<Rightarrow> (Entity \<Rightarrow> 'v list \<Rightarrow> 'v list) \<Rightarrow>
   ((Entity \<times> 'v list) list \<times> 'v World) option" where
  "query Ts w f = (let (types, w1) = getTypeIds Ts w in query_loop w1 types f 0 [])"


subsection \<open>Pools by type, histories and reachable worlds\<close>

text \<open>
  The pool of the type with registry key \<open>k\<close>, if it has been created: the slot the
  registry gives for \<open>k\<close> holds a non-null pointer.
\<close>

definition pool_of :: "'v World \<Rightarrow> nat \<Rightarrow> 'v Pool option" where
  "pool_of w k =
     (case typeMap w k of
        None \<Rightarrow> None
      | Some tid \<Rightarrow> if tid < length (pools w) then pools w ! tid else None)"

text \<open>The liveness flag of \<open>e\<close>, as every operation tests it.\<close>

definition is_alive :: "'v World \<Rightarrow> Entity \<Rightarrow> bool" where
  "is_alive w e \<longleftrightarrow> unat e < length (alive w) \<and> alive w ! unat e"

text \<open>
  The component of the type with key \<open>k\<close> that entity \<open>e\<close> carries: the value in the
  pool, if the pool exists and the presence flag of \<open>e\<close> is set.
\<close>

definition component_at :: "'v World \<Rightarrow> nat \<Rightarrow> Entity \<Rightarrow> 'v option" where
  "component_at w k e =
     (case pool_of w k of
        None \<Rightarrow> None
      | Some pl \<Rightarrow> if unat e < length (mask_flags pl) \<and> mask_flags pl ! unat e
                   then Some (data pl ! unat e) else None)"

text \<open>The entity IDs from \<open>a\<close> up to, not including, \<open>b\<close>, ascending.\<close>

definition entity_range :: "Entity \<Rightarrow> Entity \<Rightarrow> Entity list" where
  "entity_range a b = map of_nat [unat a ..< unat b]"

text \<open>The visitor calls that the loop makes on the entities \<open>es\<close>, when every probe is defined.\<close>

definition visits :: "'v World \<Rightarrow> nat list \<Rightarrow> Entity list \<Rightarrow> (Entity \<times> 'v list) list" where
  "visits w types es =
     map (\<lambda>x. (x, map (\<lambda>tid. the (the (probe w x tid))) types))
       (filter (\<lambda>x. is_alive w x \<and> (\<forall>tid \<in> set types. probe w x tid \<noteq> Some None)) es)"

text \<open>
  What has happened to a world, kept beside it: the entity IDs that \<^verbatim>\<open>create_entity\<close>
  has returned, and the keys of the types for which an \<^verbatim>\<open>add_component\<close> has
  returned \<^verbatim>\<open>OK\<close>.
\<close>

record history =
  created :: "Entity set"
  attached :: "nat set"

text \<open>One call of a public operation that returns.\<close>

inductive step :: "'v World \<times> history \<Rightarrow> 'v World \<times> history \<Rightarrow> bool" where
  step_create: "create_entity w = (e, w') \<Longrightarrow> step (w, h) (w', h\<lparr>created := insert e (created h)\<rparr>)"
| step_destroy: "step (w, h) (destroy_entity w e, h)"
| step_add_ok: "add_component T w e c = Some (OK, w') \<Longrightarrow>
                step (w, h) (w', h\<lparr>attached := insert (hash_code T) (attached h)\<rparr>)"
| step_add_error: "add_component T w e c = Some (ERROR, w') \<Longrightarrow> step (w, h) (w', h)"
| step_get: "get_component T w e = Some (r, w') \<Longrightarrow> step (w, h) (w', h)"
| step_remove: "remove_component T w e = (s, w') \<Longrightarrow> step (w, h) (w', h)"
| step_query: "query Ts w f = Some (calls, w') \<Longrightarrow> step (w, h) (w', h)"

text \<open>The worlds that the public operations produce from a new world.\<close>

inductive reach :: "'v World \<Rightarrow> history \<Rightarrow> bool" where
  reach_new: "reach new_World \<lparr>created = {}, attached = {}\<rparr>"
| reach_step: "reach w h \<Longrightarrow> step (w, h) (w', h') \<Longrightarrow> reach w' h'"

text \<open>
  The representation invariant of reachable worlds: the registry maps distinct types
  to distinct slots of the pool table, every pool has one value and one flag per
  entry of the liveness table, and the entity counter is within that table.
\<close>

definition wf_World :: "'v World \<Rightarrow> bool" where
  "wf_World w \<longleftrightarrow>
     length (pools w) = typeCounter w \<and>
     (\<forall>k tid. typeMap w k = Some tid \<longrightarrow> tid < typeCounter w) \<and>
     (\<forall>k k' tid. typeMap w k = Some tid \<longrightarrow> typeMap w k' = Some tid \<longrightarrow> k = k') \<and>
     (\<forall>tid pl. tid < length (pools w) \<longrightarrow> pools w ! tid = Some pl \<longrightarrow>
        length (data pl) = length (alive w) \<and> length (mask_flags pl) = length (alive w)) \<and>
     unat (nextEntity w) \<le> length (alive w) \<and> length (alive w) \<le> 2 ^ 32"

definition hist_ok :: "'v World \<Rightarrow> history \<Rightarrow> bool" where
  "hist_ok w h \<longleftrightarrow>
     created h = {e. unat e < length (alive w)} \<and>
     attached h = {k. pool_of w k \<noteq> None}"

text \<open>Every pool of \<open>w\<close> is still there in \<open>w'\<close>, in the same slot and no shorter.\<close>

definition pools_grow :: "'v World \<Rightarrow> 'v World \<Rightarrow> bool" where
  "pools_grow w w' \<longleftrightarrow>
     length (pools w) \<le> length (pools w') \<and>
     (\<forall>tid pl. tid < length (pools w) \<longrightarrow> pools w ! tid = Some pl \<longrightarrow>
        (\<exists>pl'. pools w' ! tid = Some pl' \<and>
               length (data pl) \<le> length (data pl') \<and>
               length (mask_flags pl) \<le> length (mask_flags pl')))"

text \<open>
  \<open>w'\<close> differs from \<open>w\<close> at most in the values stored in the pools: the same
  liveness table, counter and registry, and in every slot a pool of the same length
  with the same mask, or none.
\<close>

definition pool_shape :: "'v Pool option \<Rightarrow> (nat \<times> bool list \<times> 'v) option" where
  "pool_shape = map_option (\<lambda>pl. (length (data pl), mask_flags pl, fill_value pl))"

definition same_shape :: "'v World \<Rightarrow> 'v World \<Rightarrow> bool" where
  "same_shape w w' \<longleftrightarrow>
     alive w' = alive w \<and> nextEntity w' = nextEntity w \<and> typeMap w' = typeMap w \<and>
     typeCounter w' = typeCounter w \<and> map pool_shape (pools w') = map pool_shape (pools w)"

text \<open>\<open>n\<close> calls of \<^verbatim>\<open>create_entity\<close> in a row, as in the loop of the performance test.\<close>

primrec creates :: "nat \<Rightarrow> 'v World \<Rightarrow> 'v World" where
  "creates 0 w = w"
| "creates (Suc n) w = snd (create_entity (creates n w))"

text \<open>
  One operation of the interface that is not a \<^verbatim>\<open>create_entity\<close> returning the ID \<open>e\<close>.
\<close>

definition step_without_reissue ::
  "Entity \<Rightarrow> 'v World \<times> history \<Rightarrow> 'v World \<times> history \<Rightarrow> bool" where
  "step_without_reissue e p q \<longleftrightarrow> step p q \<and> create_entity (fst p) \<noteq> (e, fst q)"

subsection \<open>Small worlds\<close>

text \<open>
  Two component types holding integers, and the worlds of the test file's first
  steps: one entity, then a component of the first type on it.
\<close>

definition type_A :: "int ctype" where
  "type_A = \<lparr>hash_code = 1, value_init = 0\<rparr>"

definition type_B :: "int ctype" where
  "type_B = \<lparr>hash_code = 2, value_init = 0\<rparr>"

definition world1 :: "int World" where
  "world1 = snd (create_entity new_World)"

definition world2 :: "int World" where
  "world2 = snd (the (add_component type_A world1 0 5))"

text \<open>
  The world after \<open>2 ^ 32\<close> calls of \<^verbatim>\<open>create_entity\<close>, when every value of
  \<^verbatim>\<open>Entity\<close> has been issued once and the counter \<^verbatim>\<open>nextEntity\<close> has wrapped to 0;
  then a component is added to entity 0, removed and added again.
\<close>

definition full_World :: "int World" where
  "full_World = creates (2 ^ 32) new_World"

definition added_World :: "int World" where
  "added_World = snd (the (add_component type_A full_World 0 5))"

definition removed_World :: "int World" where
  "removed_World = snd (remove_component type_A added_World 0)"

definition readded_World :: "int World" where
  "readded_World = snd (the (add_component type_A removed_World 0 6))"

text \<open>
  The world \<open>world2\<close> after a \<^verbatim>\<open>get_component\<close> of the second type, which no entity
  has; and the world with the wrapped counter after entity 0 has been destroyed and
  one more entity created.
\<close>

definition fetched_World :: "int World" where
  "fetched_World = snd (the (get_component type_B world2 0))"

definition revived_World :: "int World" where
  "revived_World = snd (create_entity (destroy_entity full_World 0))"

section \<open>Invariants of the operations\<close>

subsection \<open>Vectors and the type registry\<close>

lemma resize_grow: "length xs \<le> n \<Longrightarrow> resize n x xs = xs @ replicate (n - length xs) x"
  by (simp add: resize_def)

lemma getTypeId_cases:
  assumes "getTypeId T w = (tid, w1)"
  shows "alive w1 = alive w \<and> nextEntity w1 = nextEntity w \<and>
         (typeMap w (hash_code T) = Some tid \<and> w1 = w \<or>
          typeMap w (hash_code T) = None \<and> tid = typeCounter w \<and>
          typeMap w1 = (typeMap w)(hash_code T \<mapsto> tid) \<and> typeCounter w1 = tid + 1 \<and>
          pools w1 = pools w @ replicate (tid + 1 - length (pools w)) None)"
  using assms
  by (auto simp: getTypeId_def Let_def resize_grow split: option.splits if_splits)

lemma wf_slot_bound: "wf_World w \<Longrightarrow> typeMap w k = Some t \<Longrightarrow> t < length (pools w)"
  by (simp add: wf_World_def)

lemma wf_slot_inj: "wf_World w \<Longrightarrow> typeMap w k = Some t \<Longrightarrow> typeMap w k' = Some t \<Longrightarrow> k = k'"
  unfolding wf_World_def by blast

lemma wf_pool_len:
  "wf_World w \<Longrightarrow> t < length (pools w) \<Longrightarrow> pools w ! t = Some pl \<Longrightarrow>
   length (data pl) = length (alive w) \<and> length (mask_flags pl) = length (alive w)"
  unfolding wf_World_def by blast

lemma wf_counter: "wf_World w \<Longrightarrow> length (pools w) = typeCounter w"
  by (simp add: wf_World_def)

lemma wf_entities: "wf_World w \<Longrightarrow> unat (nextEntity w) \<le> length (alive w) \<and> length (alive w) \<le> 2 ^ 32"
  by (simp add: wf_World_def)

lemma pool_of_slot: "wf_World w \<Longrightarrow> typeMap w k = Some t \<Longrightarrow> pool_of w k = pools w ! t"
  by (simp add: pool_of_def wf_slot_bound)

lemma pool_of_unregistered: "typeMap w k = None \<Longrightarrow> pool_of w k = None"
  by (simp add: pool_of_def)

lemma wf_WorldI:
  assumes "length (pools w) = typeCounter w"
    and "\<And>k t. typeMap w k = Some t \<Longrightarrow> t < typeCounter w"
    and "\<And>k k' t. typeMap w k = Some t \<Longrightarrow> typeMap w k' = Some t \<Longrightarrow> k = k'"
    and "\<And>t pl. t < length (pools w) \<Longrightarrow> pools w ! t = Some pl \<Longrightarrow>
           length (data pl) = length (alive w) \<and> length (mask_flags pl) = length (alive w)"
    and "unat (nextEntity w) \<le> length (alive w)" and "length (alive w) \<le> 2 ^ 32"
  shows "wf_World w"
  unfolding wf_World_def using assms by blast

lemma getTypeId_wf:
  assumes wf: "wf_World w" and g: "getTypeId T w = (tid, w1)"
  shows "wf_World w1"
    and "typeMap w1 (hash_code T) = Some tid"
    and "tid < length (pools w1)"
    and "pools w1 ! tid = pool_of w (hash_code T)"
    and "pool_of w1 k = pool_of w k"
    and "typeMap w k = Some t \<Longrightarrow> typeMap w1 k = Some t"
    and "alive w1 = alive w" and "nextEntity w1 = nextEntity w"
proof -
  note c = getTypeId_cases [OF g]
  show "alive w1 = alive w" "nextEntity w1 = nextEntity w" using c by auto
  show "typeMap w1 (hash_code T) = Some tid" using c by auto
  show "typeMap w k = Some t \<Longrightarrow> typeMap w1 k = Some t" using c by auto
  consider (old) "typeMap w (hash_code T) = Some tid" "w1 = w"
    | (new) "typeMap w (hash_code T) = None" "tid = length (pools w)"
        "typeMap w1 = (typeMap w)(hash_code T \<mapsto> tid)" "typeCounter w1 = tid + 1"
        "pools w1 = pools w @ [None]"
    using c wf_counter [OF wf] by auto
  note cases = this
  show "tid < length (pools w1)"
    using cases by cases (auto simp: wf_slot_bound [OF wf])
  show "pools w1 ! tid = pool_of w (hash_code T)"
    using cases by cases (auto simp: pool_of_slot [OF wf] pool_of_unregistered)
  show "pool_of w1 k = pool_of w k"
  proof (use cases in cases)
    case old
    then show ?thesis by simp
  next
    case new
    show ?thesis
    proof (cases "typeMap w k")
      case None
      then show ?thesis using new by (auto simp: pool_of_def)
    next
      case (Some t)
      then have "t < length (pools w)" by (rule wf_slot_bound [OF wf])
      moreover have "k \<noteq> hash_code T" using Some new by auto
      ultimately show ?thesis using new Some by (simp add: pool_of_def nth_append)
    qed
  qed
  show "wf_World w1"
  proof (use cases in cases)
    case old
    then show ?thesis using wf by simp
  next
    case new
    show ?thesis
    proof (rule wf_WorldI)
      show "length (pools w1) = typeCounter w1" using new by simp
      show "t < typeCounter w1" if "typeMap w1 k = Some t" for k t
        using that new wf_slot_bound [OF wf, of k t] by (auto split: if_splits)
      show "k = k'" if "typeMap w1 k = Some t" "typeMap w1 k' = Some t" for k k' t
        using that new wf_slot_bound [OF wf, of k t] wf_slot_bound [OF wf, of k' t]
          wf_slot_inj [OF wf, of k t k']
        by (auto split: if_splits)
      show "length (data pl) = length (alive w1) \<and> length (mask_flags pl) = length (alive w1)"
        if "t < length (pools w1)" "pools w1 ! t = Some pl" for t pl
        using that new c wf_pool_len [OF wf, of t pl]
        by (auto simp: nth_append split: if_splits)
      show "unat (nextEntity w1) \<le> length (alive w1)" "length (alive w1) \<le> 2 ^ 32"
        using c wf_entities [OF wf] by auto
    qed
  qed
qed

subsection \<open>Updating one pool\<close>

lemma ensureSize_grow:
  assumes "length (data p) = m" "length (mask_flags p) = m" "m \<le> n"
  shows "ensureSize n p = p\<lparr>data := data p @ replicate (n - m) (fill_value p),
                            mask_flags := mask_flags p @ replicate (n - m) False\<rparr>"
  using assms by (auto simp: ensureSize_def resize_grow)

lemma ensureSize_same:
  "length (data p) = n \<Longrightarrow> ensureSize n p = p"
  by (simp add: ensureSize_def)

lemma wf_pool_update:
  assumes wf: "wf_World w" and k: "typeMap w k = Some tid"
    and len: "length (data pl) = length (alive w)" "length (mask_flags pl) = length (alive w)"
  shows "wf_World (w\<lparr>pools := (pools w)[tid := Some pl]\<rparr>)"
    and "pool_of (w\<lparr>pools := (pools w)[tid := Some pl]\<rparr>) k' = (if k' = k then Some pl else pool_of w k')"
proof -
  let ?w = "w\<lparr>pools := (pools w)[tid := Some pl]\<rparr>"
  have tid: "tid < length (pools w)" using wf k by (rule wf_slot_bound)
  show "wf_World ?w"
  proof (rule wf_WorldI)
    show "length (pools ?w) = typeCounter ?w" using wf_counter [OF wf] by simp
    show "t < typeCounter ?w" if "typeMap ?w k = Some t" for k t
      using that wf_slot_bound [OF wf, of k t] wf_counter [OF wf] by simp
    show "k = k'" if "typeMap ?w k = Some t" "typeMap ?w k' = Some t" for k k' t
      using that wf_slot_inj [OF wf, of k t k'] by simp
    show "length (data q) = length (alive ?w) \<and> length (mask_flags q) = length (alive ?w)"
      if "t < length (pools ?w)" "pools ?w ! t = Some q" for t q
      using that len wf_pool_len [OF wf, of t q] by (cases "t = tid") auto
    show "unat (nextEntity ?w) \<le> length (alive ?w)" "length (alive ?w) \<le> 2 ^ 32"
      using wf_entities [OF wf] by auto
  qed
  show "pool_of ?w k' = (if k' = k then Some pl else pool_of w k')"
  proof (cases "typeMap w k'")
    case None
    then show ?thesis using k by (auto simp: pool_of_def)
  next
    case (Some t)
    have "t = tid \<longleftrightarrow> k' = k" using wf_slot_inj [OF wf Some, of k] k Some by auto
    then show ?thesis using Some k tid wf_slot_bound [OF wf Some]
      by (auto simp: pool_of_def)
  qed
qed

lemma wf_new_World: "wf_World new_World"
  by (simp add: wf_World_def new_World_def)

lemma wf_destroy_entity: "wf_World w \<Longrightarrow> wf_World (destroy_entity w e)"
  by (simp add: wf_World_def destroy_entity_def)

lemma pool_of_cong: "typeMap w' = typeMap w \<Longrightarrow> pools w' = pools w \<Longrightarrow> pool_of w' k = pool_of w k"
  by (simp add: pool_of_def split: option.splits)

lemma destroy_entity_fields:
  "pools (destroy_entity w e) = pools w" "typeMap (destroy_entity w e) = typeMap w"
  "typeCounter (destroy_entity w e) = typeCounter w" "nextEntity (destroy_entity w e) = nextEntity w"
  "length (alive (destroy_entity w e)) = length (alive w)"
  by (simp_all add: destroy_entity_def)

lemma pool_of_destroy_entity: "pool_of (destroy_entity w e) k = pool_of w k"
  by (rule pool_of_cong) (simp_all add: destroy_entity_fields)

subsection \<open>Creating entities\<close>

lemma word_set_Suc:
  fixes x :: Entity
  assumes "unat x = n"
  shows "{e :: Entity. unat e < Suc n} = insert x {e. unat e < n}"
  using assms by (auto simp: less_Suc_eq word_unat_eq_iff)

lemma create_entity_wf:
  assumes wf: "wf_World w" and c: "create_entity w = (x, w')"
  shows "wf_World w'"
    and "x = nextEntity w"
    and "typeMap w' = typeMap w"
    and "typeCounter w' = typeCounter w"
    and "nextEntity w' = nextEntity w + 1"
    and "length (alive w') = max (length (alive w)) (Suc (unat x))"
    and "is_alive w' x"
    and "e \<noteq> x \<Longrightarrow> is_alive w' e = is_alive w e"
    and "pools w' = map (map_option (ensureSize (length (alive w')))) (pools w)"
    and "{e. unat e < length (alive w')} = insert x {e. unat e < length (alive w)}"
proof -
  let ?n = "length (alive w)"
  have x: "x = nextEntity w" using c by (auto simp: create_entity_def Let_def)
  then show "x = nextEntity w" .
  have le: "unat x \<le> ?n" "?n \<le> 2 ^ 32" using wf_entities [OF wf] x by auto
  have same: "map (map_option (ensureSize ?n)) (pools w) = pools w"
  proof (rule map_idI)
    fix p assume "p \<in> set (pools w)"
    then obtain t where "t < length (pools w)" "pools w ! t = p" by (auto simp: in_set_conv_nth)
    then show "map_option (ensureSize ?n) p = p"
      using wf_pool_len [OF wf, of t] by (cases p) (auto simp: ensureSize_same)
  qed
  consider (grow) "unat x = ?n" | (inside) "unat x < ?n" using le by linarith
  then have w': "alive w' = (if unat x = ?n then alive w @ [True] else (alive w)[unat x := True])
      \<and> pools w' = map (map_option (ensureSize (length (alive w')))) (pools w)
      \<and> typeMap w' = typeMap w \<and> typeCounter w' = typeCounter w \<and> nextEntity w' = x + 1"
  proof cases
    case grow
    then show ?thesis using c x
      by (auto simp: create_entity_def Let_def ensureEntity_def resize_grow)
  next
    case inside
    then show ?thesis using c x same
      by (auto simp: create_entity_def Let_def ensureEntity_def)
  qed
  then show "typeMap w' = typeMap w" "typeCounter w' = typeCounter w" "nextEntity w' = nextEntity w + 1"
    "pools w' = map (map_option (ensureSize (length (alive w')))) (pools w)"
    using x by auto
  show len: "length (alive w') = max (length (alive w)) (Suc (unat x))"
    using w' le by auto
  show "is_alive w' x" using w' le by (auto simp: is_alive_def nth_append)
  show "is_alive w' e = is_alive w e" if "e \<noteq> x"
  proof -
    have "unat e \<noteq> unat x" using that by (simp add: word_unat_eq_iff)
    then show ?thesis using w' le by (auto simp: is_alive_def nth_append)
  qed
  show "{e. unat e < length (alive w')} = insert x {e. unat e < length (alive w)}"
  proof (cases "unat x = ?n")
    case True
    then show ?thesis using len word_set_Suc [of x ?n] by (simp add: max_def)
  next
    case False
    then have "unat x < ?n" using le by simp
    then show ?thesis using len by (auto simp: max_def)
  qed
  show "wf_World w'"
  proof (rule wf_WorldI)
    show "length (pools w') = typeCounter w'" using w' wf_counter [OF wf] by simp
    show "t < typeCounter w'" if "typeMap w' k = Some t" for k t
      using that w' wf_slot_bound [OF wf, of k t] wf_counter [OF wf] by simp
    show "k = k'" if "typeMap w' k = Some t" "typeMap w' k' = Some t" for k k' t
      using that w' wf_slot_inj [OF wf, of k t k'] by simp
    show "length (data q) = length (alive w') \<and> length (mask_flags q) = length (alive w')"
      if t: "t < length (pools w')" and q: "pools w' ! t = Some q" for t q
    proof -
      have t': "t < length (pools w)" using t w' by simp
      then obtain p where p: "pools w ! t = Some p" "q = ensureSize (length (alive w')) p"
        using q w' by (cases "pools w ! t") auto
      have "length (data p) = ?n" "length (mask_flags p) = ?n"
        using wf_pool_len [OF wf t' p(1)] by auto
      moreover have "?n \<le> length (alive w')" using len by simp
      ultimately show ?thesis using p(2) by (simp add: ensureSize_grow [where m = ?n])
    qed
    show "length (alive w') \<le> 2 ^ 32"
    proof -
      have "unat x < 2 ^ 32" using unsigned_less [of x, where 'a = nat] by simp
      then show ?thesis using len le by (auto simp: max_def)
    qed
    show "unat (nextEntity w') \<le> length (alive w')"
    proof -
      have "unat (x + 1) = (unat x + 1) mod 2 ^ 32" by (simp add: unat_word_ariths)
      also have "\<dots> \<le> unat x + 1" by (rule mod_less_eq_dividend)
      finally show ?thesis using w' len by simp
    qed
  qed
qed

subsection \<open>Adding a component\<close>

lemma getTypeId_pools:
  assumes "getTypeId T w = (tid, w1)"
  shows "length (pools w) \<le> length (pools w1)"
    and "t < length (pools w) \<Longrightarrow> pools w1 ! t = pools w ! t"
  using getTypeId_cases [OF assms] by (auto simp: nth_append)

lemma pools_grow_refl: "pools_grow w w"
  by (simp add: pools_grow_def)

lemma ensureSize_empty:
  "ensureSize n \<lparr>data = [], mask_flags = [], fill_value = d\<rparr>
   = \<lparr>data = replicate n d, mask_flags = replicate n False, fill_value = d\<rparr>"
  by (simp add: ensureSize_def resize_def)

lemma add_component_wf:
  fixes T :: "'v ctype" and w :: "'v World" and e :: Entity and c :: 'v
  assumes wf: "wf_World w" and al: "is_alive w e"
  defines "q \<equiv> (case pool_of w (hash_code T) of
                   None \<Rightarrow> \<lparr>data = replicate (length (alive w)) (value_init T),
                            mask_flags = replicate (length (alive w)) False,
                            fill_value = value_init T\<rparr>
                 | Some q \<Rightarrow> q)"
  defines "pl \<equiv> q\<lparr>data := (data q)[unat e := c], mask_flags := (mask_flags q)[unat e := True]\<rparr>"
  obtains w' where "add_component T w e c = Some (OK, w')"
    and "wf_World w'" and "alive w' = alive w" and "nextEntity w' = nextEntity w"
    and "\<And>k. pool_of w' k = (if k = hash_code T then Some pl else pool_of w k)"
    and "pools_grow w w'"
    and "length (data q) = length (alive w)" and "length (mask_flags q) = length (alive w)"
proof -
  let ?n = "length (alive w)"
  obtain tid w1 where g: "getTypeId T w = (tid, w1)" by (cases "getTypeId T w")
  note g1 = getTypeId_wf [OF wf g]
  have e: "unat e < ?n" "alive w ! unat e" using al by (auto simp: is_alive_def)
  have tid: "tid < length (pools w1)" by (rule g1(3))
  let ?p = "case pools w1 ! tid of
              None \<Rightarrow> \<lparr>data = [], mask_flags = [], fill_value = value_init T\<rparr> | Some r \<Rightarrow> r"
  have q: "ensureSize ?n ?p = q"
  proof (cases "pool_of w (hash_code T)")
    case None
    then show ?thesis using g1(4) by (simp add: q_def ensureSize_empty)
  next
    case (Some r)
    then have "pools w1 ! tid = Some r" using g1(4) by simp
    then show ?thesis using Some wf_pool_len [OF g1(1) tid, of r] g1(7)
      by (simp add: q_def ensureSize_same)
  qed
  have qlen: "length (data q) = ?n" "length (mask_flags q) = ?n"
  proof -
    show "length (data q) = ?n"
      using g1(4) wf_pool_len [OF g1(1) tid] g1(7)
      by (cases "pool_of w (hash_code T)") (auto simp: q_def)
    show "length (mask_flags q) = ?n"
      using g1(4) wf_pool_len [OF g1(1) tid] g1(7)
      by (cases "pool_of w (hash_code T)") (auto simp: q_def)
  qed
  let ?w' = "w1\<lparr>pools := (pools w1)[tid := Some pl]\<rparr>"
  have ep: "ensurePool T tid w1 = Some (q, w1\<lparr>pools := (pools w1)[tid := Some q]\<rparr>)"
    using tid q g1(7) by (simp add: ensurePool_def Let_def)
  have res: "add_component T w e c = Some (OK, ?w')"
    using e g ep qlen by (simp add: add_component_def pl_def)
  have pllen: "length (data pl) = length (alive w1)" "length (mask_flags pl) = length (alive w1)"
    using qlen g1(7) by (simp_all add: pl_def)
  note u = wf_pool_update [OF g1(1) g1(2) pllen]
  have grow: "pools_grow w ?w'"
    unfolding pools_grow_def
  proof (intro conjI allI impI)
    show "length (pools w) \<le> length (pools ?w')" using getTypeId_pools(1) [OF g] by simp
    fix t r assume t: "t < length (pools w)" and r: "pools w ! t = Some r"
    have r1: "pools w1 ! t = Some r" using getTypeId_pools(2) [OF g t] r by simp
    have t1: "t < length (pools w1)" using t getTypeId_pools(1) [OF g] by simp
    show "\<exists>pl'. pools ?w' ! t = Some pl' \<and> length (data r) \<le> length (data pl') \<and>
                 length (mask_flags r) \<le> length (mask_flags pl')"
      using r1 t1 wf_pool_len [OF g1(1) t1 r1] pllen by (cases "t = tid") auto
  qed
  show thesis
  proof (rule that [OF res])
    show "wf_World ?w'" by (rule u(1))
    show "alive ?w' = alive w" "nextEntity ?w' = nextEntity w" using g1(7,8) by auto
    show "pool_of ?w' k = (if k = hash_code T then Some pl else pool_of w k)" for k
      using u(2) [of k] g1(5) [of k] by simp
    show "pools_grow w ?w'" by (rule grow)
    show "length (data q) = length (alive w)" "length (mask_flags q) = length (alive w)"
      by (rule qlen)+
  qed
qed

subsection \<open>Fetching and removing a component\<close>

lemma getTypeId_registered: "typeMap w (hash_code T) = Some tid \<Longrightarrow> getTypeId T w = (tid, w)"
  by (simp add: getTypeId_def)

lemma pool_of_SomeD:
  "pool_of w k = Some pl \<Longrightarrow> \<exists>tid. typeMap w k = Some tid \<and> tid < length (pools w) \<and> pools w ! tid = Some pl"
  by (auto simp: pool_of_def split: option.splits if_splits)

lemma get_component_wf:
  assumes wf: "wf_World w"
  shows "get_component T w e =
         Some (case pool_of w (hash_code T) of
                 None \<Rightarrow> None
               | Some pl \<Rightarrow> if unat e < length (mask_flags pl) \<and> mask_flags pl ! unat e
                            then Some (data pl ! unat e) else None,
               snd (getTypeId T w))"
proof -
  obtain tid w1 where g: "getTypeId T w = (tid, w1)" by (cases "getTypeId T w")
  note g1 = getTypeId_wf [OF wf g]
  show ?thesis
  proof (cases "pool_of w (hash_code T)")
    case None
    then show ?thesis using g g1(3,4) by (simp add: get_component_def)
  next
    case (Some pl)
    then have p: "pools w1 ! tid = Some pl" using g1(4) by simp
    have "length (data pl) = length (mask_flags pl)"
      using wf_pool_len [OF g1(1) g1(3) p] by simp
    then show ?thesis using g g1(3) p Some by (simp add: get_component_def)
  qed
qed

lemma remove_component_no_pool:
  assumes wf: "wf_World w" and none: "pool_of w (hash_code T) = None"
  shows "remove_component T w e = (ERROR, snd (getTypeId T w))"
proof -
  obtain tid w1 where g: "getTypeId T w = (tid, w1)" by (cases "getTypeId T w")
  note g1 = getTypeId_wf [OF wf g]
  show ?thesis using g g1(3,4) none by (simp add: remove_component_def)
qed

lemma remove_component_pool:
  assumes wf: "wf_World w" and some: "pool_of w (hash_code T) = Some pl"
  obtains tid where "typeMap w (hash_code T) = Some tid" "tid < length (pools w)"
    and "remove_component T w e =
           (OK, if unat e < length (mask_flags pl)
                then w\<lparr>pools := (pools w)[tid := Some (pl\<lparr>mask_flags := (mask_flags pl)[unat e := False]\<rparr>)]\<rparr>
                else w)"
    and "wf_World (snd (remove_component T w e))"
    and "\<And>k. pool_of (snd (remove_component T w e)) k =
           (if k = hash_code T then Some (pl\<lparr>mask_flags := (mask_flags pl)[unat e := False]\<rparr>)
            else pool_of w k)"
proof -
  obtain tid where tid: "typeMap w (hash_code T) = Some tid" "tid < length (pools w)"
    "pools w ! tid = Some pl"
    using pool_of_SomeD [OF some] by blast
  let ?pl = "pl\<lparr>mask_flags := (mask_flags pl)[unat e := False]\<rparr>"
  let ?w = "w\<lparr>pools := (pools w)[tid := Some ?pl]\<rparr>"
  have r: "remove_component T w e = (OK, if unat e < length (mask_flags pl) then ?w else w)"
    using tid by (simp add: remove_component_def getTypeId_registered)
  have len: "length (data ?pl) = length (alive w)" "length (mask_flags ?pl) = length (alive w)"
    using wf_pool_len [OF wf tid(2,3)] by simp_all
  note u = wf_pool_update [OF wf tid(1) len]
  have same: "?pl = pl" if "\<not> unat e < length (mask_flags pl)"
  proof -
    have "(mask_flags pl)[unat e := False] = mask_flags pl"
      using that by (simp add: list_update_beyond)
    then show ?thesis by simp
  qed
  show thesis
  proof (rule that [OF tid(1,2) r])
    show "wf_World (snd (remove_component T w e))" using r u(1) wf by simp
    show "pool_of (snd (remove_component T w e)) k =
           (if k = hash_code T then Some ?pl else pool_of w k)" for k
    proof (cases "unat e < length (mask_flags pl)")
      case True
      then show ?thesis using r u(2) [of k] by simp
    next
      case False
      then show ?thesis using r same some by simp
    qed
  qed
qed

subsection \<open>The query loop\<close>

lemma entity_range_Cons:
  assumes "a < b" shows "entity_range a b = a # entity_range (a + 1) b"
proof -
  have l: "unat a < unat b" using assms by (simp add: word_less_nat_alt)
  have "unat b < 2 ^ 32" using unsigned_less [of b, where 'a = nat] by simp
  then have "(unat a + 1) mod 2 ^ 32 = unat a + 1" using l by simp
  then have s: "unat (a + 1) = Suc (unat a)" by (simp add: unat_word_ariths)
  show ?thesis using l s by (simp add: entity_range_def upt_conv_Cons)
qed

lemma entity_range_Nil: "\<not> a < b \<Longrightarrow> entity_range a b = []"
  by (simp add: entity_range_def word_less_nat_alt)

lemma those_map_defined:
  "(\<And>x. x \<in> set xs \<Longrightarrow> f x \<noteq> None) \<Longrightarrow> those (map f xs) = Some (map (\<lambda>x. the (f x)) xs)"
  by (induction xs) (auto split: option.splits)

lemma unat_of_nat_Entity: "i < 2 ^ 32 \<Longrightarrow> unat (of_nat i :: Entity) = i"
  by (simp add: unat_of_nat)

lemma set_entity_range: "set (entity_range 0 b) = {x. x < b}"
proof (intro set_eqI iffI)
  fix x assume "x \<in> set (entity_range 0 b)"
  then obtain i where i: "i < unat b" "x = of_nat i" by (auto simp: entity_range_def)
  have "unat b < 2 ^ 32" using unsigned_less [of b, where 'a = nat] by simp
  then have "unat x = i" using i by (simp add: unat_of_nat_Entity)
  then show "x \<in> {x. x < b}" using i by (simp add: word_less_nat_alt)
next
  fix x assume "x \<in> {x. x < b}"
  then have "unat x < unat b" by (simp add: word_less_nat_alt)
  moreover have "of_nat (unat x) = x" by simp
  ultimately show "x \<in> set (entity_range 0 b)"
    unfolding entity_range_def by (metis (no_types, lifting) atLeast0LessThan imageI
        lessThan_iff set_map set_upt unsigned_0)
qed

lemma sorted_entity_range: "sorted_wrt (<) (entity_range a b)"
proof -
  have b: "unat b < 2 ^ 32" using unsigned_less [of b, where 'a = nat] by simp
  have "sorted_wrt (\<lambda>i j. (of_nat i :: Entity) < of_nat j) [unat a ..< unat b]"
  proof (rule sorted_wrt_mono_rel [where P = "(<)"])
    fix i j assume "i \<in> set [unat a ..< unat b]" "j \<in> set [unat a ..< unat b]" "i < j"
    then have "i < 2 ^ 32" "j < 2 ^ 32" "i < j" using b by auto
    then show "(of_nat i :: Entity) < of_nat j"
      by (simp add: word_less_nat_alt unat_of_nat_Entity)
  next
    show "sorted_wrt (<) [unat a ..< unat b]" by simp
  qed
  then show ?thesis by (simp add: entity_range_def sorted_wrt_map)
qed

lemma entity_range_above:
  assumes "a < b" and "x \<in> set (entity_range (a + 1) b)"
  shows "unat x \<noteq> unat a"
proof -
  have "sorted_wrt (<) (a # entity_range (a + 1) b)"
    using sorted_entity_range [of a b] entity_range_Cons [OF assms(1)] by simp
  then have "a < x" using assms(2) by simp
  then show ?thesis by (simp add: word_less_nat_alt)
qed

text \<open>Storing through the pointers changes values only.\<close>

lemma same_shape_refl: "same_shape w w"
  by (simp add: same_shape_def)

lemma same_shape_trans: "same_shape a b \<Longrightarrow> same_shape b c \<Longrightarrow> same_shape a c"
  by (simp add: same_shape_def)

lemma store_at_shape:
  fixes w :: "'v World"
  shows "same_shape w (store_at e tv w)"
proof -
  let ?upd = "\<lambda>pl :: 'v Pool. pl\<lparr>data := (data pl)[unat e := snd tv]\<rparr>"
  have u: "pool_shape (map_option ?upd p) = pool_shape p" for p :: "'v Pool option"
    by (cases p) (simp_all add: pool_shape_def)
  have "map pool_shape ((pools w)[fst tv := map_option ?upd (pools w ! fst tv)])
        = map pool_shape (pools w)"
  proof (cases "fst tv < length (pools w)")
    case True
    then have "(map pool_shape (pools w))[fst tv := pool_shape (pools w ! fst tv)]
               = map pool_shape (pools w)"
      using list_update_id [of "map pool_shape (pools w)" "fst tv"] by simp
    then show ?thesis by (simp add: map_update u)
  next
    case False
    then show ?thesis by (simp add: list_update_beyond)
  qed
  then show ?thesis by (simp add: same_shape_def store_at_def)
qed

lemma fold_store_at_shape: "same_shape w (fold (store_at e) tvs w)"
proof (induction tvs arbitrary: w)
  case Nil
  show ?case by (simp add: same_shape_refl)
next
  case (Cons tv tvs)
  show ?case
    using same_shape_trans [OF store_at_shape Cons.IH [of "store_at e tv w"]] by simp
qed

lemma write_back_shape: "same_shape w (write_back w types e vals)"
  unfolding write_back_def by (rule fold_store_at_shape)

lemma pool_shape_None: "pool_shape p = pool_shape None \<Longrightarrow> p = None"
  by (simp add: pool_shape_def)

lemma pool_shape_Some:
  assumes "pool_shape p = pool_shape (Some pl)"
  obtains pl' where "p = Some pl'" "length (data pl') = length (data pl)"
    "mask_flags pl' = mask_flags pl" "fill_value pl' = fill_value pl"
  using assms by (cases p) (auto simp: pool_shape_def)

lemma same_shape_slot:
  assumes "same_shape w w'"
  shows "length (pools w') = length (pools w)"
    and "tid < length (pools w) \<Longrightarrow> pool_shape (pools w' ! tid) = pool_shape (pools w ! tid)"
proof -
  have m: "map pool_shape (pools w') = map pool_shape (pools w)"
    using assms by (simp add: same_shape_def)
  show l: "length (pools w') = length (pools w)" using map_eq_imp_length_eq [OF m] .
  show "pool_shape (pools w' ! tid) = pool_shape (pools w ! tid)" if "tid < length (pools w)"
    using nth_map [of tid "pools w'" pool_shape] nth_map [of tid "pools w" pool_shape] that l m
    by simp
qed

lemma probe_same_shape:
  assumes sh: "same_shape w w'"
  shows "(probe w' x tid = None) = (probe w x tid = None)"
    and "(probe w' x tid = Some None) = (probe w x tid = Some None)"
proof -
  note sl = same_shape_slot [OF sh]
  have "(probe w' x tid = None) = (probe w x tid = None) \<and>
        (probe w' x tid = Some None) = (probe w x tid = Some None)"
  proof (cases "tid < length (pools w)")
    case False
    then show ?thesis using sl(1) by (simp add: probe_def)
  next
    case True
    show ?thesis
    proof (cases "pools w ! tid")
      case None
      then have "pools w' ! tid = None" using sl(2) [OF True] pool_shape_None by metis
      then show ?thesis using None True sl(1) by (simp add: probe_def)
    next
      case (Some pl)
      then obtain pl' where "pools w' ! tid = Some pl'" "length (data pl') = length (data pl)"
        "mask_flags pl' = mask_flags pl"
        using sl(2) [OF True] pool_shape_Some by metis
      then show ?thesis using Some True sl(1) by (simp add: probe_def)
    qed
  qed
  then show "(probe w' x tid = None) = (probe w x tid = None)"
    and "(probe w' x tid = Some None) = (probe w x tid = Some None)" by simp_all
qed

lemma probe_store_at:
  assumes "unat x \<noteq> unat e"
  shows "probe (store_at e tv w) x tid = probe w x tid"
proof (cases "tid = fst tv \<and> tid < length (pools w)")
  case False
  then show ?thesis by (auto simp: probe_def store_at_def)
next
  case True
  then show ?thesis using assms
    by (cases "pools w ! tid") (simp_all add: probe_def store_at_def)
qed

lemma probe_fold_store_at:
  "unat x \<noteq> unat e \<Longrightarrow> probe (fold (store_at e) tvs w) x tid = probe w x tid"
  by (induction tvs arbitrary: w) (simp_all add: probe_store_at)

lemma visits_write_back:
  assumes "\<And>x. x \<in> set es \<Longrightarrow> unat x \<noteq> unat e"
  shows "visits (write_back w types e vals) types es = visits w types es"
proof -
  let ?w = "write_back w types e vals"
  have a: "is_alive ?w x = is_alive w x" for x
    using write_back_shape [of w types e vals] by (simp add: same_shape_def is_alive_def)
  have p: "probe ?w x tid = probe w x tid" if "x \<in> set es" for x tid
    unfolding write_back_def using assms [OF that] by (rule probe_fold_store_at)
  let ?F = "filter (\<lambda>x. is_alive w x \<and> (\<forall>tid \<in> set types. probe w x tid \<noteq> Some None)) es"
  have 1: "filter (\<lambda>x. is_alive ?w x \<and> (\<forall>tid \<in> set types. probe ?w x tid \<noteq> Some None)) es = ?F"
    by (rule filter_cong) (simp_all add: a p)
  have 2: "map (\<lambda>x. (x, map (\<lambda>tid. the (the (probe ?w x tid))) types)) ?F
        = map (\<lambda>x. (x, map (\<lambda>tid. the (the (probe w x tid))) types)) ?F"
    by (rule map_cong) (auto simp: p)
  show ?thesis
    unfolding visits_def 1 by (rule 2)
qed

text \<open>The loop changes values only, whatever it returns.\<close>

lemma query_loop_shape:
  "query_loop w types f e calls = Some (r, w') \<Longrightarrow> same_shape w w'"
proof (induction w types f e calls rule: query_loop.induct)
  case (1 w types f e calls)
  note res = "1.prems"
  show ?case
  proof (cases "e < nextEntity w")
    case False
    then have "w' = w" using res by (subst (asm) query_loop.simps) simp
    then show ?thesis by (simp add: same_shape_refl)
  next
    case less: True
    show ?thesis
    proof (cases "unat e \<ge> length (alive w) \<or> \<not> alive w ! unat e")
      case True
      then have "query_loop w types f (e + 1) calls = Some (r, w')"
        using res less by (subst (asm) query_loop.simps) simp
      then show ?thesis by (rule "1.IH"(1) [OF less True])
    next
      case al: False
      show ?thesis
      proof (cases "those (map (probe w e) types)")
        case None
        then show ?thesis using res less al by (subst (asm) query_loop.simps) simp
      next
        case (Some ptrs)
        show ?thesis
        proof (cases "list_all (\<lambda>p. p \<noteq> None) ptrs")
          case True
          then have "query_loop (write_back w types e (f e (map the ptrs))) types f (e + 1)
                       (calls @ [(e, map the ptrs)]) = Some (r, w')"
            using res less al Some by (subst (asm) query_loop.simps) simp
          then have "same_shape (write_back w types e (f e (map the ptrs))) w'"
            by (rule "1.IH"(2) [OF less al Some True])
          then show ?thesis using same_shape_trans [OF write_back_shape] by blast
        next
          case False
          then have "query_loop w types f (e + 1) calls = Some (r, w')"
            using res less al Some by (subst (asm) query_loop.simps) simp
          then show ?thesis by (rule "1.IH"(3) [OF less al Some False])
        qed
      qed
    qed
  qed
qed

text \<open>The calls of the loop when every probe is defined.\<close>

lemma query_loop_defined:
  assumes "\<And>x tid. tid \<in> set types \<Longrightarrow> probe w x tid \<noteq> None"
  shows "map_option fst (query_loop w types f e calls)
         = Some (calls @ visits w types (entity_range e (nextEntity w)))"
  using assms
proof (induction w types f e calls rule: query_loop.induct)
  case (1 w types f e calls)
  show ?case
  proof (cases "e < nextEntity w")
    case False
    then show ?thesis by (subst query_loop.simps) (simp add: entity_range_Nil visits_def)
  next
    case less: True
    note r = entity_range_Cons [OF less]
    have th: "those (map (probe w e) types) = Some (map (\<lambda>tid. the (probe w e tid)) types)"
      by (rule those_map_defined) (use "1.prems" in blast)
    show ?thesis
    proof (cases "unat e \<ge> length (alive w) \<or> \<not> alive w ! unat e")
      case True
      then have "\<not> is_alive w e" by (auto simp: is_alive_def)
      then show ?thesis using "1.IH"(1) [OF less True "1.prems"] less True r
        by (subst query_loop.simps) (simp add: visits_def)
    next
      case al: False
      then have a: "is_alive w e" by (auto simp: is_alive_def)
      show ?thesis
      proof (cases "list_all (\<lambda>p. p \<noteq> None) (map (\<lambda>tid. the (probe w e tid)) types)")
        case True
        then have m: "\<forall>tid \<in> set types. probe w e tid \<noteq> Some None"
          by (auto simp: list_all_iff)
        let ?vals = "map the (map (\<lambda>tid. the (probe w e tid)) types)"
        let ?w = "write_back w types e (f e ?vals)"
        have sh: "same_shape w ?w" by (rule write_back_shape)
        have d: "probe ?w x tid \<noteq> None" if "tid \<in> set types" for x tid
          using probe_same_shape(1) [OF sh, of x tid] "1.prems" [OF that] by simp
        have n: "nextEntity ?w = nextEntity w" using sh by (simp add: same_shape_def)
        have v: "visits ?w types (entity_range (e + 1) (nextEntity w))
                 = visits w types (entity_range (e + 1) (nextEntity w))"
          by (rule visits_write_back) (rule entity_range_above [OF less])
        have "map_option fst (query_loop ?w types f (e + 1) (calls @ [(e, ?vals)]))
              = Some ((calls @ [(e, ?vals)]) @ visits w types (entity_range (e + 1) (nextEntity w)))"
          using "1.IH"(2) [OF less al th True d] n v by simp
        then show ?thesis using less al th True r a m
          by (subst query_loop.simps) (simp add: visits_def comp_def)
      next
        case False
        then obtain p where p: "p \<in> set types" "the (probe w e p) = None"
          by (auto simp: list_all_iff)
        then have "probe w e p = Some None"
          using "1.prems" [OF p(1), of e] by (cases "probe w e p") auto
        then have m: "\<not> (\<forall>tid \<in> set types. probe w e tid \<noteq> Some None)"
          using p(1) by blast
        show ?thesis
          using "1.IH"(3) [OF less al th False "1.prems"] less al th False r a m
          by (subst query_loop.simps) (auto simp: visits_def)
      qed
    qed
  qed
qed

subsection \<open>The query on well-formed worlds\<close>

lemma pools_grow_trans:
  assumes ab: "pools_grow a b" and bc: "pools_grow b c"
  shows "pools_grow a c"
  unfolding pools_grow_def
proof (intro conjI allI impI)
  show "length (pools a) \<le> length (pools c)"
    using ab bc unfolding pools_grow_def by linarith
  fix t p assume t: "t < length (pools a)" and p: "pools a ! t = Some p"
  from ab t p obtain q where q: "pools b ! t = Some q" "length (data p) \<le> length (data q)"
    "length (mask_flags p) \<le> length (mask_flags q)"
    unfolding pools_grow_def by blast
  have "t < length (pools b)" using ab t unfolding pools_grow_def by linarith
  with bc q(1) obtain r where "pools c ! t = Some r" "length (data q) \<le> length (data r)"
    "length (mask_flags q) \<le> length (mask_flags r)"
    unfolding pools_grow_def by blast
  then show "\<exists>r. pools c ! t = Some r \<and> length (data p) \<le> length (data r) \<and>
               length (mask_flags p) \<le> length (mask_flags r)"
    using q(2,3) by (intro exI [of _ r]) simp
qed

lemma getTypeId_pools_grow:
  assumes "getTypeId T w = (tid, w1)" shows "pools_grow w w1"
  using getTypeId_pools [OF assms] by (simp add: pools_grow_def)

lemma getTypeIds_wf:
  assumes "wf_World w" and "getTypeIds Ts w = (tids, w1)"
  shows "wf_World w1 \<and> alive w1 = alive w \<and> nextEntity w1 = nextEntity w \<and>
         (\<forall>k. pool_of w1 k = pool_of w k) \<and> pools_grow w w1 \<and>
         (\<forall>k t. typeMap w k = Some t \<longrightarrow> typeMap w1 k = Some t) \<and>
         (\<forall>T \<in> set Ts. typeMap w1 (hash_code T) \<noteq> None) \<and>
         tids = map (\<lambda>T. the (typeMap w1 (hash_code T))) Ts"
  using assms
proof (induction Ts arbitrary: w tids w1)
  case Nil
  then show ?case by (simp add: pools_grow_refl)
next
  case (Cons T Ts)
  obtain tid w2 where g: "getTypeId T w = (tid, w2)" by (cases "getTypeId T w")
  obtain tids' w3 where gs: "getTypeIds Ts w2 = (tids', w3)" by (cases "getTypeIds Ts w2")
  have res: "tids = tid # tids'" "w1 = w3" using Cons.prems(2) g gs by auto
  note g1 = getTypeId_wf [OF Cons.prems(1) g]
  note ih = Cons.IH [OF g1(1) gs]
  have t: "typeMap w3 (hash_code T) = Some tid" using ih g1(2) by blast
  have "pools_grow w w3"
    using pools_grow_trans [OF getTypeId_pools_grow [OF g]] ih by blast
  moreover have "\<forall>k. pool_of w3 k = pool_of w k" using ih g1(5) by simp
  moreover have "\<forall>k t. typeMap w k = Some t \<longrightarrow> typeMap w3 k = Some t" using ih g1(6) by blast
  ultimately show ?case using ih g1(7,8) t res by simp
qed

lemma getTypeIds_registered:
  "(\<And>T. T \<in> set Ts \<Longrightarrow> typeMap w (hash_code T) \<noteq> None) \<Longrightarrow>
   getTypeIds Ts w = (map (\<lambda>T. the (typeMap w (hash_code T))) Ts, w)"
proof (induction Ts)
  case Nil
  show ?case by simp
next
  case (Cons T Ts)
  obtain tid where "typeMap w (hash_code T) = Some tid" using Cons.prems [of T] by auto
  then have "getTypeId T w = (the (typeMap w (hash_code T)), w)" by (simp add: getTypeId_def)
  moreover have "getTypeIds Ts w = (map (\<lambda>T. the (typeMap w (hash_code T))) Ts, w)"
    by (rule Cons.IH) (simp add: Cons.prems)
  ultimately show ?case by simp
qed

lemma probe_wf:
  assumes wf: "wf_World w" and k: "typeMap w k = Some tid"
  shows "probe w x tid = map_option (\<lambda>_. component_at w k x) (pool_of w k)"
proof -
  have tid: "tid < length (pools w)" using wf k by (rule wf_slot_bound)
  have p: "pool_of w k = pools w ! tid" using wf k by (rule pool_of_slot)
  show ?thesis
  proof (cases "pools w ! tid")
    case None
    then show ?thesis using p tid by (simp add: probe_def)
  next
    case (Some pl)
    then have "length (data pl) = length (mask_flags pl)" using wf_pool_len [OF wf tid] by simp
    then show ?thesis using p tid Some by (auto simp: probe_def component_at_def)
  qed
qed

lemma same_shape_pool_of:
  assumes wf: "wf_World w" and sh: "same_shape w w'"
  shows "pool_shape (pool_of w' k) = pool_shape (pool_of w k)"
proof (cases "typeMap w k")
  case None
  then show ?thesis using sh by (simp add: pool_of_def same_shape_def)
next
  case (Some tid)
  then have t: "tid < length (pools w)" by (rule wf_slot_bound [OF wf])
  then show ?thesis
    using Some sh same_shape_slot [OF sh] by (simp add: pool_of_def same_shape_def)
qed

lemma wf_same_shape:
  assumes wf: "wf_World w" and sh: "same_shape w w'"
  shows "wf_World w'"
proof (rule wf_WorldI)
  note sl = same_shape_slot [OF sh]
  have f: "alive w' = alive w" "nextEntity w' = nextEntity w" "typeMap w' = typeMap w"
    "typeCounter w' = typeCounter w" using sh by (simp_all add: same_shape_def)
  show "length (pools w') = typeCounter w'" using sl(1) f wf_counter [OF wf] by simp
  show "t < typeCounter w'" if "typeMap w' k = Some t" for k t
    using that f wf_slot_bound [OF wf, of k t] wf_counter [OF wf] by simp
  show "k = k'" if "typeMap w' k = Some t" "typeMap w' k' = Some t" for k k' t
    using that f wf_slot_inj [OF wf, of k t k'] by simp
  show "length (data q) = length (alive w') \<and> length (mask_flags q) = length (alive w')"
    if t: "t < length (pools w')" and q: "pools w' ! t = Some q" for t q
  proof -
    have t': "t < length (pools w)" using t sl(1) by simp
    have "pool_shape (pools w ! t) = pool_shape (Some q)" using sl(2) [OF t'] q by simp
    then obtain pl where "pools w ! t = Some pl" "length (data pl) = length (data q)"
      "mask_flags pl = mask_flags q"
      by (rule pool_shape_Some)
    then show ?thesis using wf_pool_len [OF wf t', of pl] f by simp
  qed
  show "unat (nextEntity w') \<le> length (alive w')" "length (alive w') \<le> 2 ^ 32"
    using f wf_entities [OF wf] by auto
qed

lemma pools_grow_same_shape:
  assumes sh: "same_shape w w'"
  shows "pools_grow w w'"
  unfolding pools_grow_def
proof (intro conjI allI impI)
  note sl = same_shape_slot [OF sh]
  show "length (pools w) \<le> length (pools w')" using sl(1) by simp
  fix t pl assume t: "t < length (pools w)" and p: "pools w ! t = Some pl"
  have "pool_shape (pools w' ! t) = pool_shape (Some pl)" using sl(2) [OF t] p by simp
  then obtain pl' where "pools w' ! t = Some pl'" "length (data pl') = length (data pl)"
    "mask_flags pl' = mask_flags pl"
    by (rule pool_shape_Some)
  then show "\<exists>pl'. pools w' ! t = Some pl' \<and> length (data pl) \<le> length (data pl') \<and>
               length (mask_flags pl) \<le> length (mask_flags pl')"
    by (intro exI [of _ pl']) simp
qed

lemma query_shape:
  assumes "query Ts w f = Some (calls, w')"
  shows "same_shape (snd (getTypeIds Ts w)) w'"
proof -
  obtain types w1 where g: "getTypeIds Ts w = (types, w1)" by (cases "getTypeIds Ts w")
  then have "query_loop w1 types f 0 [] = Some (calls, w')" using assms by (simp add: query_def)
  then show ?thesis using query_loop_shape g by simp
qed

lemma query_wf:
  assumes wf: "wf_World w" and pools: "\<And>T. T \<in> set Ts \<Longrightarrow> pool_of w (hash_code T) \<noteq> None"
  obtains w' where
    "query Ts w f =
       Some (map (\<lambda>x. (x, map (\<lambda>T. the (component_at w (hash_code T) x)) Ts))
               (filter (\<lambda>x. is_alive w x \<and> (\<forall>T \<in> set Ts. component_at w (hash_code T) x \<noteq> None))
                  (entity_range 0 (nextEntity w))), w')"
    and "same_shape w w'"
proof -
  let ?slot = "\<lambda>T. the (typeMap w (hash_code T))"
  have reg: "typeMap w (hash_code T) = Some (?slot T)" if "T \<in> set Ts" for T
    using pools [OF that] by (auto simp: pool_of_def split: option.splits)
  then have ids: "getTypeIds Ts w = (map ?slot Ts, w)"
    by (intro getTypeIds_registered) auto
  have pr: "probe w x (?slot T) = Some (component_at w (hash_code T) x)" if "T \<in> set Ts" for T x
    using probe_wf [OF wf reg [OF that], of x] pools [OF that] by auto
  then have "map_option fst (query_loop w (map ?slot Ts) f 0 []) =
             Some ([] @ visits w (map ?slot Ts) (entity_range 0 (nextEntity w)))"
    by (intro query_loop_defined) auto
  moreover have "visits w (map ?slot Ts) es =
        map (\<lambda>x. (x, map (\<lambda>T. the (component_at w (hash_code T) x)) Ts))
          (filter (\<lambda>x. is_alive w x \<and> (\<forall>T \<in> set Ts. component_at w (hash_code T) x \<noteq> None)) es)" for es
    unfolding visits_def
    by (rule arg_cong2 [where f = map]) (auto simp: pr intro!: filter_cong)
  ultimately obtain w' where q: "query Ts w f =
       Some (map (\<lambda>x. (x, map (\<lambda>T. the (component_at w (hash_code T) x)) Ts))
               (filter (\<lambda>x. is_alive w x \<and> (\<forall>T \<in> set Ts. component_at w (hash_code T) x \<noteq> None))
                  (entity_range 0 (nextEntity w))), w')"
    using ids by (auto simp: query_def)
  have "same_shape w w'" using query_shape [OF q] ids by simp
  then show thesis using that [OF q] by simp
qed

subsection \<open>Reachable worlds are well-formed\<close>

lemma create_entity_pools:
  assumes wf: "wf_World w" and c: "create_entity w = (x, w')"
  shows "pool_of w' k = map_option (ensureSize (length (alive w'))) (pool_of w k)"
    and "pools_grow w w'"
proof -
  note c1 = create_entity_wf [OF wf c]
  show "pool_of w' k = map_option (ensureSize (length (alive w'))) (pool_of w k)"
    using c1(3,9) by (auto simp: pool_of_def split: option.splits)
  have le: "length (alive w) \<le> length (alive w')" using c1(6) by simp
  show "pools_grow w w'"
    unfolding pools_grow_def
  proof (intro conjI allI impI)
    show "length (pools w) \<le> length (pools w')" using c1(9) by simp
    fix t pl assume t: "t < length (pools w)" and p: "pools w ! t = Some pl"
    have l: "length (data pl) = length (alive w)" "length (mask_flags pl) = length (alive w)"
      using wf_pool_len [OF wf t p] by auto
    have "pools w' ! t = Some (ensureSize (length (alive w')) pl)"
      using c1(9) t p by simp
    then show "\<exists>pl'. pools w' ! t = Some pl' \<and> length (data pl) \<le> length (data pl') \<and>
                 length (mask_flags pl) \<le> length (mask_flags pl')"
      using ensureSize_grow [OF l le] by simp
  qed
qed

lemma pools_grow_update:
  assumes "pools w ! tid = Some pl" "length (data pl) \<le> length (data pl')"
    "length (mask_flags pl) \<le> length (mask_flags pl')"
  shows "pools_grow w (w\<lparr>pools := (pools w)[tid := Some pl']\<rparr>)"
  unfolding pools_grow_def
proof (intro conjI allI impI)
  show "length (pools w) \<le> length (pools (w\<lparr>pools := (pools w)[tid := Some pl']\<rparr>))" by simp
  fix t q assume "t < length (pools w)" "pools w ! t = Some q"
  then show "\<exists>r. pools (w\<lparr>pools := (pools w)[tid := Some pl']\<rparr>) ! t = Some r \<and>
               length (data q) \<le> length (data r) \<and> length (mask_flags q) \<le> length (mask_flags r)"
    using assms by (cases "t = tid") auto
qed

lemma add_component_ERROR: "add_component T w e c = Some (ERROR, w') \<Longrightarrow> w' = w \<and> \<not> is_alive w e"
  by (auto simp: add_component_def is_alive_def Let_def split: if_splits prod.splits option.splits)

lemma add_component_OK: "add_component T w e c = Some (OK, w') \<Longrightarrow> is_alive w e"
  by (auto simp: add_component_def is_alive_def split: if_splits)

lemma step_invariant:
  assumes wf: "wf_World w" and h: "hist_ok w h" and s: "step (w, h) (w', h')"
  shows "wf_World w' \<and> hist_ok w' h' \<and> pools_grow w w'"
  using s
proof (cases rule: step.cases)
  case (step_create e)
  note c1 = create_entity_wf [OF wf step_create(2)]
  note c2 = create_entity_pools [OF wf step_create(2)]
  have "{k. pool_of w' k \<noteq> None} = {k. pool_of w k \<noteq> None}" by (simp add: c2(1))
  then show ?thesis using c1(1) c1(10) c2(2) h step_create(1) by (simp add: hist_ok_def)
next
  case (step_destroy e)
  then show ?thesis using wf h
    by (simp add: wf_destroy_entity hist_ok_def destroy_entity_fields pool_of_destroy_entity
        pools_grow_def)
next
  case (step_add_ok T e c)
  have al: "is_alive w e" using step_add_ok(2) by (rule add_component_OK)
  from add_component_wf [OF wf al, of T c] obtain w'' where
    r: "add_component T w e c = Some (OK, w'')" and wf': "wf_World w''"
    and a: "alive w'' = alive w"
    and p: "\<And>k. pool_of w'' k \<noteq> None \<longleftrightarrow> k = hash_code T \<or> pool_of w k \<noteq> None"
    and g: "pools_grow w w''"
    by (metis (no_types, lifting) option.distinct(1))
  have eq: "w'' = w'" using r step_add_ok(2) by simp
  have "{k. pool_of w' k \<noteq> None} = insert (hash_code T) {k. pool_of w k \<noteq> None}"
    using p eq by auto
  then show ?thesis using wf' g a eq h step_add_ok(1) by (simp add: hist_ok_def)
next
  case (step_add_error T e c)
  then show ?thesis using add_component_ERROR [OF step_add_error(2)] wf h
    by (simp add: pools_grow_refl)
next
  case (step_get T e r)
  obtain tid w1 where g: "getTypeId T w = (tid, w1)" by (cases "getTypeId T w")
  note g1 = getTypeId_wf [OF wf g]
  have "w' = w1" using step_get(2) get_component_wf [OF wf, of T e] g by simp
  then show ?thesis using g1(1,5,7) h step_get(1) getTypeId_pools_grow [OF g]
    by (simp add: hist_ok_def)
next
  case (step_remove T e st)
  show ?thesis
  proof (cases "pool_of w (hash_code T)")
    case None
    obtain tid w1 where g: "getTypeId T w = (tid, w1)" by (cases "getTypeId T w")
    note g1 = getTypeId_wf [OF wf g]
    have "w' = w1" using step_remove(2) remove_component_no_pool [OF wf None, of e] g by simp
    then show ?thesis using g1(1,5,7) h step_remove(1) getTypeId_pools_grow [OF g]
      by (simp add: hist_ok_def)
  next
    case (Some pl)
    from remove_component_pool [OF wf Some, where e = e] obtain tid where
      tid: "typeMap w (hash_code T) = Some tid" "tid < length (pools w)"
      and r: "remove_component T w e =
           (OK, if unat e < length (mask_flags pl)
                then w\<lparr>pools := (pools w)[tid := Some (pl\<lparr>mask_flags := (mask_flags pl)[unat e := False]\<rparr>)]\<rparr>
                else w)"
      and wf': "wf_World (snd (remove_component T w e))"
      and p: "\<And>k. pool_of (snd (remove_component T w e)) k =
           (if k = hash_code T then Some (pl\<lparr>mask_flags := (mask_flags pl)[unat e := False]\<rparr>)
            else pool_of w k)"
      by blast
    have pt: "pools w ! tid = Some pl" using pool_of_slot [OF wf tid(1)] Some by simp
    have w': "w' = snd (remove_component T w e)" using step_remove(2) by simp
    have "{k. pool_of w' k \<noteq> None} = {k. pool_of w k \<noteq> None}"
      using p Some w' by auto
    moreover have "alive w' = alive w" using w' r by simp
    moreover have "pools_grow w w'"
      using w' r pools_grow_update [OF pt, of "pl\<lparr>mask_flags := (mask_flags pl)[unat e := False]\<rparr>"]
      by (simp add: pools_grow_refl)
    ultimately show ?thesis using wf' w' h step_remove(1) by (simp add: hist_ok_def)
  qed
next
  case (step_query Ts f calls)
  obtain tids w1 where g: "getTypeIds Ts w = (tids, w1)" by (cases "getTypeIds Ts w")
  note g1 = getTypeIds_wf [OF wf g]
  have wf1: "wf_World w1" using g1 by simp
  have sh: "same_shape w1 w'" using query_shape [OF step_query(2)] g by simp
  have p: "(pool_of w' k = None) = (pool_of w k = None)" for k
    using same_shape_pool_of [OF wf1 sh, of k] g1 by (auto simp: pool_shape_def)
  have "alive w' = alive w" using sh g1 by (simp add: same_shape_def)
  moreover have "pools_grow w w'"
    using pools_grow_trans [of w w1 w'] g1 pools_grow_same_shape [OF sh] by simp
  ultimately show ?thesis using wf_same_shape [OF wf1 sh] p h step_query(1)
    by (simp add: hist_ok_def)
qed

lemma reach_invariant: "reach w h \<Longrightarrow> wf_World w \<and> hist_ok w h"
proof (induction rule: reach.induct)
  case reach_new
  have "hist_ok new_World \<lparr>created = {}, attached = {}\<rparr>"
    by (simp add: hist_ok_def new_World_def pool_of_def)
  then show ?case using wf_new_World by simp
next
  case (reach_step w h w' h')
  then show ?case using step_invariant by blast
qed

subsection \<open>What the operations leave alone\<close>

lemma remove_component_ERROR_world:
  "remove_component T w e = (ERROR, w') \<Longrightarrow> w' = snd (getTypeId T w)"
  by (auto simp: remove_component_def split: prod.splits if_splits option.splits)

lemma get_component_world:
  "get_component T w e = Some (r, w') \<Longrightarrow> w' = snd (getTypeId T w)"
  by (auto simp: get_component_def split: prod.splits if_splits option.splits)

lemma add_component_entities:
  assumes "add_component T w e c = Some (s, w')"
  shows "alive w' = alive w \<and> nextEntity w' = nextEntity w"
proof (cases "is_alive w e")
  case False
  then have "add_component T w e c = Some (ERROR, w)"
    by (auto simp: add_component_def is_alive_def)
  then show ?thesis using assms by simp
next
  case True
  obtain tid w1 where g: "getTypeId T w = (tid, w1)" by (cases "getTypeId T w")
  have a: "alive w1 = alive w" "nextEntity w1 = nextEntity w" using getTypeId_cases [OF g] by auto
  show ?thesis using assms True g a
    by (auto simp: add_component_def is_alive_def ensurePool_def Let_def
        split: if_splits option.splits)
qed

lemma remove_component_entities:
  assumes "remove_component T w e = (s, w')"
  shows "alive w' = alive w \<and> nextEntity w' = nextEntity w"
proof -
  obtain tid w1 where g: "getTypeId T w = (tid, w1)" by (cases "getTypeId T w")
  have a: "alive w1 = alive w" "nextEntity w1 = nextEntity w" using getTypeId_cases [OF g] by auto
  show ?thesis using assms g a
    by (auto simp: remove_component_def split: if_splits option.splits)
qed

lemma get_component_entities:
  assumes "get_component T w e = Some (res, w')"
  shows "alive w' = alive w \<and> nextEntity w' = nextEntity w"
proof -
  obtain tid w1 where g: "getTypeId T w = (tid, w1)" by (cases "getTypeId T w")
  have a: "alive w1 = alive w" "nextEntity w1 = nextEntity w" using getTypeId_cases [OF g] by auto
  have "w' = w1" using get_component_world [OF assms] g by simp
  then show ?thesis using a by simp
qed

lemma getTypeIds_alive: "alive (snd (getTypeIds Ts w)) = alive w"
proof (induction Ts arbitrary: w)
  case Nil
  show ?case by simp
next
  case (Cons T Ts)
  obtain tid w1 where g: "getTypeId T w = (tid, w1)" by (cases "getTypeId T w")
  have "alive w1 = alive w" using getTypeId_cases [OF g] by simp
  then show ?case using Cons.IH [of w1] g by (simp add: split_beta)
qed

lemma getTypeIds_nextEntity: "nextEntity (snd (getTypeIds Ts w)) = nextEntity w"
proof (induction Ts arbitrary: w)
  case Nil
  show ?case by simp
next
  case (Cons T Ts)
  obtain tid w1 where g: "getTypeId T w = (tid, w1)" by (cases "getTypeId T w")
  have "nextEntity w1 = nextEntity w" using getTypeId_cases [OF g] by simp
  then show ?case using Cons.IH [of w1] g by (simp add: split_beta)
qed

lemma step_entities:
  assumes "step (w, h) (w', h')"
  shows "(\<exists>x. create_entity w = (x, w')) \<or>
         (length (alive w') = length (alive w) \<and> nextEntity w' = nextEntity w)"
  using assms
proof (cases rule: step.cases)
  case (step_create e)
  then show ?thesis by auto
next
  case (step_destroy e)
  then show ?thesis by (simp add: destroy_entity_fields)
next
  case (step_add_ok T e c)
  then show ?thesis using add_component_entities [OF step_add_ok(2)] by simp
next
  case (step_add_error T e c)
  then show ?thesis using add_component_entities [OF step_add_error(2)] by simp
next
  case (step_get T e r)
  then show ?thesis using get_component_entities [OF step_get(2)] by simp
next
  case (step_remove T e s)
  then show ?thesis using remove_component_entities [OF step_remove(2)] by simp
next
  case (step_query Ts f calls)
  then show ?thesis
    using query_shape [OF step_query(2)] getTypeIds_alive [of Ts w] getTypeIds_nextEntity [of Ts w]
    by (simp add: same_shape_def)
qed

lemma step_alive:
  assumes "step (w, h) (w', h')"
  shows "(\<exists>x. create_entity w = (x, w')) \<or> (\<forall>e. is_alive w' e \<longrightarrow> is_alive w e)"
  using assms
proof (cases rule: step.cases)
  case (step_create e)
  then show ?thesis by auto
next
  case (step_destroy e')
  have "is_alive w e" if "is_alive (destroy_entity w e') e" for e
    using that by (auto simp: is_alive_def destroy_entity_def nth_list_update split: if_splits)
  then show ?thesis using step_destroy by simp
next
  case (step_add_ok T e c)
  then show ?thesis using add_component_entities [OF step_add_ok(2)] by (simp add: is_alive_def)
next
  case (step_add_error T e c)
  then show ?thesis using add_component_entities [OF step_add_error(2)] by (simp add: is_alive_def)
next
  case (step_get T e r)
  then show ?thesis using get_component_entities [OF step_get(2)] by (simp add: is_alive_def)
next
  case (step_remove T e s)
  then show ?thesis using remove_component_entities [OF step_remove(2)] by (simp add: is_alive_def)
next
  case (step_query Ts f calls)
  then show ?thesis
    using query_shape [OF step_query(2)] getTypeIds_alive [of Ts w]
    by (simp add: is_alive_def same_shape_def)
qed

subsection \<open>The entity counter\<close>

text \<open>
  The IDs below \<open>n\<close> are \<open>n\<close> many, up to the \<open>2 ^ 32\<close> values of \<^verbatim>\<open>Entity\<close>; so
  the number of entities created is the length of the liveness table. Until that
  table holds all \<open>2 ^ 32\<close> IDs the counter is its length, \<^verbatim>\<open>create_entity\<close> returns
  an ID it has not returned before, and every alive entity is below the counter.
\<close>

lemma card_entities_below:
  assumes "n \<le> 2 ^ 32"
  shows "card {e :: Entity. unat e < n} = n"
proof -
  have "unat ` {e :: Entity. unat e < n} = {..<n}"
  proof (intro set_eqI iffI)
    fix i assume "i \<in> {..<n}"
    then have i: "i < n" by simp
    then have "i < 2 ^ 32" using assms by simp
    then have u: "unat (of_nat i :: Entity) = i" by (simp add: unat_of_nat)
    then have "(of_nat i :: Entity) \<in> {e. unat e < n}" using i by simp
    then show "i \<in> unat ` {e :: Entity. unat e < n}" using u by (metis imageI)
  qed auto
  moreover have "inj_on unat {e :: Entity. unat e < n}"
    by (auto simp: inj_on_def word_unat_eq_iff)
  ultimately show ?thesis using card_image [of unat "{e :: Entity. unat e < n}"] by simp
qed

lemma reach_card_created:
  assumes "reach w h" shows "card (created h) = length (alive w)"
  using reach_invariant [OF assms] card_entities_below [of "length (alive w)"] wf_entities [of w]
  by (simp add: hist_ok_def)

lemma reach_counter:
  assumes "reach w h"
  shows "length (alive w) < 2 ^ 32 \<longrightarrow> unat (nextEntity w) = length (alive w)"
  using assms
proof (induction rule: reach.induct)
  case reach_new
  show ?case by (simp add: new_World_def)
next
  case (reach_step w h w' h')
  have wf: "wf_World w" using reach_invariant [OF reach_step(1)] by simp
  from step_entities [OF reach_step(2)] show ?case
  proof
    assume "\<exists>x. create_entity w = (x, w')"
    then obtain x where c: "create_entity w = (x, w')" by blast
    note c1 = create_entity_wf [OF wf c]
    show ?thesis
    proof
      assume l: "length (alive w') < 2 ^ 32"
      then have "length (alive w) < 2 ^ 32" using c1(6) by simp
      then have n: "unat x = length (alive w)" using reach_step(3) c1(2) by simp
      then have len: "length (alive w') = Suc (unat x)" using c1(6) by simp
      then have "(unat x + 1) mod 2 ^ 32 = unat x + 1" using l by simp
      then have "unat (x + 1) = Suc (unat x)" by (simp add: unat_word_ariths)
      then show "unat (nextEntity w') = length (alive w')" using c1(2,5) len by simp
    qed
  next
    assume "length (alive w') = length (alive w) \<and> nextEntity w' = nextEntity w"
    then show ?thesis using reach_step(3) by simp
  qed
qed

lemma create_entity_fresh:
  assumes r: "reach w h" and c: "card (created h) < 2 ^ 32"
  shows "fst (create_entity w) \<notin> created h"
proof -
  have l: "length (alive w) < 2 ^ 32" using c reach_card_created [OF r] by simp
  then have "unat (nextEntity w) = length (alive w)" using reach_counter [OF r] by simp
  moreover have "created h = {e. unat e < length (alive w)}"
    using reach_invariant [OF r] by (simp add: hist_ok_def)
  ultimately show ?thesis by (simp add: create_entity_def Let_def)
qed

lemma alive_below_counter:
  assumes r: "reach w h" and c: "card (created h) < 2 ^ 32" and al: "is_alive w e"
  shows "e < nextEntity w"
proof -
  have "length (alive w) < 2 ^ 32" using c reach_card_created [OF r] by simp
  then have "unat (nextEntity w) = length (alive w)" using reach_counter [OF r] by simp
  then show ?thesis using al by (simp add: is_alive_def word_less_nat_alt)
qed

subsection \<open>The calls of a query\<close>

text \<open>
  When every type of the list has a pool, the query returns and calls the visitor
  once for each entity below the counter that is alive and carries every type, in
  ascending order, with the values stored for it when the query began; the world it
  leaves differs at most in the values the visitor has stored.
\<close>

lemma query_visits:
  assumes r: "reach w h" and a: "\<forall>T \<in> set Ts. hash_code T \<in> attached h"
  obtains calls w' where "query Ts w f = Some (calls, w')" and "same_shape w w'"
    and "sorted_wrt (<) (map fst calls)"
    and "set (map fst calls) = {x. x < nextEntity w \<and> is_alive w x \<and>
                                   (\<forall>T \<in> set Ts. component_at w (hash_code T) x \<noteq> None)}"
    and "\<And>x vs. (x, vs) \<in> set calls \<Longrightarrow> vs = map (\<lambda>T. the (component_at w (hash_code T) x)) Ts"
proof -
  have wf: "wf_World w" and h: "hist_ok w h" using reach_invariant [OF r] by auto
  have pools: "pool_of w (hash_code T) \<noteq> None" if "T \<in> set Ts" for T
    using that a h by (auto simp: hist_ok_def)
  let ?P = "\<lambda>x. is_alive w x \<and> (\<forall>T \<in> set Ts. component_at w (hash_code T) x \<noteq> None)"
  let ?f = "\<lambda>x. (x, map (\<lambda>T. the (component_at w (hash_code T) x)) Ts)"
  let ?calls = "map ?f (filter ?P (entity_range 0 (nextEntity w)))"
  from query_wf [OF wf pools, of Ts f] obtain w' where
    q: "query Ts w f = Some (?calls, w')" and sh: "same_shape w w'"
    by blast
  have fst: "map fst ?calls = filter ?P (entity_range 0 (nextEntity w))"
    by (simp add: comp_def)
  show thesis
  proof (rule that [OF q sh])
    show "sorted_wrt (<) (map fst ?calls)"
      unfolding fst by (rule sorted_wrt_filter [OF sorted_entity_range])
    show "set (map fst ?calls) = {x. x < nextEntity w \<and> ?P x}"
      unfolding fst by (auto simp: set_entity_range)
    show "vs = map (\<lambda>T. the (component_at w (hash_code T) x)) Ts" if "(x, vs) \<in> set ?calls" for x vs
      using that by auto
  qed
qed

lemma query_counter_0:
  assumes "nextEntity w = 0" shows "map_option fst (query Ts w f) = Some []"
proof -
  obtain types w1 where g: "getTypeIds Ts w = (types, w1)" by (cases "getTypeIds Ts w")
  have "nextEntity w1 = 0" using getTypeIds_nextEntity [of Ts w] g assms by simp
  then have "query_loop w1 types f 0 [] = Some ([], w1)" by (subst query_loop.simps) simp
  then show ?thesis using g by (simp add: query_def)
qed

subsection \<open>Adding, removing and adding again\<close>

lemma get_component_at:
  assumes wf: "wf_World w" and p: "pool_of w (hash_code T) \<noteq> None"
  shows "get_component T w e = Some (component_at w (hash_code T) e, w)"
proof -
  obtain tid where "typeMap w (hash_code T) = Some tid"
    using p by (auto simp: pool_of_def split: option.splits)
  then have "snd (getTypeId T w) = w" by (simp add: getTypeId_registered)
  then show ?thesis using get_component_wf [OF wf, of T e] by (simp add: component_at_def)
qed

lemma add_component_sets:
  assumes wf: "wf_World w" and al: "is_alive w e"
  obtains w' where "add_component T w e c = Some (OK, w')" and "wf_World w'"
    and "alive w' = alive w" and "nextEntity w' = nextEntity w"
    and "pool_of w' (hash_code T) \<noteq> None" and "component_at w' (hash_code T) e = Some c"
proof -
  let ?n = "length (alive w)"
  let ?q = "case pool_of w (hash_code T) of
              None \<Rightarrow> \<lparr>data = replicate ?n (value_init T), mask_flags = replicate ?n False,
                        fill_value = value_init T\<rparr>
            | Some q \<Rightarrow> q"
  let ?pl = "?q\<lparr>data := (data ?q)[unat e := c], mask_flags := (mask_flags ?q)[unat e := True]\<rparr>"
  from add_component_wf [OF wf al, of T c] obtain w' where
    r: "add_component T w e c = Some (OK, w')" and wf': "wf_World w'"
    and a: "alive w' = alive w" "nextEntity w' = nextEntity w"
    and p: "\<And>k. pool_of w' k = (if k = hash_code T then Some ?pl else pool_of w k)"
    and qlen: "length (data ?q) = ?n" "length (mask_flags ?q) = ?n"
    by blast
  have e: "unat e < ?n" using al by (simp add: is_alive_def)
  have pl: "pool_of w' (hash_code T) = Some ?pl" using p [of "hash_code T"] by simp
  have "component_at w' (hash_code T) e = Some c"
    unfolding component_at_def pl using e qlen by simp
  then show thesis using that [OF r wf' a] pl by simp
qed

lemma remove_component_clears:
  assumes wf: "wf_World w" and p: "pool_of w (hash_code T) \<noteq> None"
  obtains w' where "remove_component T w e = (OK, w')" and "wf_World w'"
    and "alive w' = alive w" and "nextEntity w' = nextEntity w"
    and "pool_of w' (hash_code T) \<noteq> None" and "component_at w' (hash_code T) e = None"
proof -
  obtain pl where pl: "pool_of w (hash_code T) = Some pl" using p by auto
  let ?pl = "pl\<lparr>mask_flags := (mask_flags pl)[unat e := False]\<rparr>"
  from remove_component_pool [OF wf pl, where e = e] obtain tid where
    res: "remove_component T w e =
           (OK, if unat e < length (mask_flags pl)
                then w\<lparr>pools := (pools w)[tid := Some ?pl]\<rparr>
                else w)"
    and wf': "wf_World (snd (remove_component T w e))"
    and p': "\<And>k. pool_of (snd (remove_component T w e)) k =
           (if k = hash_code T then Some ?pl else pool_of w k)"
    by blast
  let ?w' = "snd (remove_component T w e)"
  have r: "remove_component T w e = (OK, ?w')" using res by simp
  have a: "alive ?w' = alive w" "nextEntity ?w' = nextEntity w" using res by simp_all
  have pp: "pool_of ?w' (hash_code T) = Some ?pl" using p' [of "hash_code T"] by simp
  have "component_at ?w' (hash_code T) e = None"
    unfolding component_at_def pp by simp
  then show thesis using that [OF r wf' a] pp by simp
qed

lemma readd_chain:
  assumes wf: "wf_World w" and al: "is_alive w e"
  obtains w1 w2 w3 where
    "add_component T w e v = Some (OK, w1)" and "get_component T w1 e = Some (Some v, w1)"
    and "remove_component T w1 e = (OK, w2)" and "get_component T w2 e = Some (None, w2)"
    and "add_component T w2 e v' = Some (OK, w3)" and "get_component T w3 e = Some (Some v', w3)"
    and "wf_World w3" and "is_alive w3 e" and "nextEntity w3 = nextEntity w"
    and "pool_of w3 (hash_code T) \<noteq> None" and "component_at w3 (hash_code T) e = Some v'"
proof -
  from add_component_sets [OF wf al, of T v] obtain w1 where
    1: "add_component T w e v = Some (OK, w1)" "wf_World w1" "alive w1 = alive w"
    "nextEntity w1 = nextEntity w" "pool_of w1 (hash_code T) \<noteq> None"
    "component_at w1 (hash_code T) e = Some v"
    by blast
  from remove_component_clears [OF 1(2) 1(5), of e] obtain w2 where
    2: "remove_component T w1 e = (OK, w2)" "wf_World w2" "alive w2 = alive w1"
    "nextEntity w2 = nextEntity w1" "pool_of w2 (hash_code T) \<noteq> None"
    "component_at w2 (hash_code T) e = None"
    by blast
  have al2: "is_alive w2 e" using al 1(3) 2(3) by (simp add: is_alive_def)
  from add_component_sets [OF 2(2) al2, of T v'] obtain w3 where
    3: "add_component T w2 e v' = Some (OK, w3)" "wf_World w3" "alive w3 = alive w2"
    "nextEntity w3 = nextEntity w2" "pool_of w3 (hash_code T) \<noteq> None"
    "component_at w3 (hash_code T) e = Some v'"
    by blast
  have al3: "is_alive w3 e" using al2 3(3) by (simp add: is_alive_def)
  show thesis
  proof (rule that [OF 1(1) _ 2(1) _ 3(1) _ 3(2) al3 _ 3(5) 3(6)])
    show "get_component T w1 e = Some (Some v, w1)"
      using get_component_at [OF 1(2) 1(5), of e] 1(6) by simp
    show "get_component T w2 e = Some (None, w2)"
      using get_component_at [OF 2(2) 2(5), of e] 2(6) by simp
    show "get_component T w3 e = Some (Some v', w3)"
      using get_component_at [OF 3(2) 3(5), of e] 3(6) by simp
    show "nextEntity w3 = nextEntity w" using 1(4) 2(4) 3(4) by simp
  qed
qed

lemma query_single:
  assumes wf: "wf_World w" and p: "pool_of w (hash_code T) \<noteq> None"
    and al: "is_alive w e" and c: "component_at w (hash_code T) e = Some v"
    and less: "e < nextEntity w"
  obtains calls w' where "query [T] w f = Some (calls, w')" and "(e, [v]) \<in> set calls"
    and "\<And>vs. (e, vs) \<in> set calls \<Longrightarrow> vs = [v]"
proof -
  let ?P = "\<lambda>x. is_alive w x \<and> (\<forall>T \<in> set [T]. component_at w (hash_code T) x \<noteq> None)"
  let ?f = "\<lambda>x. (x, map (\<lambda>T. the (component_at w (hash_code T) x)) [T])"
  let ?calls = "map ?f (filter ?P (entity_range 0 (nextEntity w)))"
  from query_wf [OF wf, of "[T]" f] p obtain w' where q: "query [T] w f = Some (?calls, w')"
    by auto
  have "e \<in> set (filter ?P (entity_range 0 (nextEntity w)))"
    using al c less by (simp add: set_entity_range)
  then have "?f e \<in> ?f ` set (filter ?P (entity_range 0 (nextEntity w)))" by (rule imageI)
  then have "?f e \<in> set ?calls" by (simp only: set_map)
  moreover have "?f e = (e, [v])" using c by simp
  ultimately have m: "(e, [v]) \<in> set ?calls" by simp
  have u: "vs = [v]" if "(e, vs) \<in> set ?calls" for vs using that c by auto
  show thesis using that [OF q m u] .
qed

subsection \<open>The worlds with a wrapped counter\<close>

lemma creates_new_World:
  "n \<le> 2 ^ 32 \<Longrightarrow>
   creates n (new_World :: 'v World)
     = \<lparr>alive = replicate n True, nextEntity = of_nat n, pools = [], typeMap = Map.empty,
        typeCounter = 0\<rparr>"
proof (induction n)
  case 0
  show ?case by (simp add: new_World_def)
next
  case (Suc n)
  then have n: "n < 2 ^ 32" and ih: "creates n (new_World :: 'v World)
     = \<lparr>alive = replicate n True, nextEntity = of_nat n, pools = [], typeMap = Map.empty,
        typeCounter = 0\<rparr>" by auto
  have u: "unat (of_nat n :: Entity) = n" using n by (rule unat_of_nat_Entity)
  have "(replicate n True @ [False])[n := True] = replicate n True @ [True]"
    using list_update_length [of "replicate n True" False "[]" True] by simp
  then have "(replicate n True @ [False])[n := True] = replicate (Suc n) True"
    by (simp add: replicate_append_same)
  then show ?case
    by (simp add: ih create_entity_def Let_def ensureEntity_def resize_grow u)
qed

lemma reach_creates: "reach w h \<Longrightarrow> \<exists>h'. reach (creates n w) h'"
proof (induction n)
  case 0
  then show ?case by auto
next
  case (Suc n)
  then obtain h' where r: "reach (creates n w) h'" by blast
  have "step (creates n w, h')
          (snd (create_entity (creates n w)),
           h'\<lparr>created := insert (fst (create_entity (creates n w))) (created h')\<rparr>)"
    by (rule step_create) simp
  then show ?case using reach_step [OF r] by auto
qed

lemma full_World_eq:
  "full_World = \<lparr>alive = replicate (2 ^ 32) True, nextEntity = 0, pools = [],
                 typeMap = Map.empty, typeCounter = 0\<rparr>"
proof -
  have z: "(of_nat (2 ^ 32) :: Entity) = 0" by simp
  have "creates (2 ^ 32) (new_World :: int World)
     = \<lparr>alive = replicate (2 ^ 32) True, nextEntity = of_nat (2 ^ 32), pools = [],
        typeMap = Map.empty, typeCounter = 0\<rparr>"
    by (rule creates_new_World) (rule order_refl)
  then show ?thesis unfolding full_World_def z .
qed

lemma wf_full_World: "wf_World full_World"
proof -
  obtain h where "reach full_World h"
    unfolding full_World_def using reach_creates [OF reach_new] by blast
  then show ?thesis using reach_invariant by blast
qed

lemma alive_full_World: "is_alive full_World 0"
proof -
  have "(0 :: nat) < 2 ^ 32" by simp
  then have "replicate (2 ^ 32) True ! 0 = True" by (rule nth_replicate)
  then show ?thesis unfolding is_alive_def full_World_eq by simp
qed

subsection \<open>An entity that is not alive\<close>

text \<open>
  An entity that is not alive stays so, and \<^verbatim>\<open>add_component\<close> on it keeps failing,
  through every sequence of operations in which no \<^verbatim>\<open>create_entity\<close> returns its ID.
\<close>

lemma not_alive_destroy_entity: "\<not> is_alive (destroy_entity w e) e"
  by (simp add: is_alive_def destroy_entity_def)

lemma add_component_not_alive: "\<not> is_alive w e \<Longrightarrow> add_component T w e c = Some (ERROR, w)"
  by (auto simp: add_component_def is_alive_def)

lemma step_revives:
  assumes wf: "wf_World w" and s: "step (w, h) (w', h')"
    and d: "\<not> is_alive w e" and a: "is_alive w' e"
  shows "create_entity w = (e, w')"
proof -
  from step_alive [OF s] d a obtain x where c: "create_entity w = (x, w')" by blast
  have "x = e" using create_entity_wf(8) [OF wf c, of e] d a by blast
  then show ?thesis using c by simp
qed

lemma dead_until_reissued:
  assumes "rtranclp (step_without_reissue e) (w0, h0) (w', h')"
    and "reach w0 h0" and "\<not> is_alive w0 e"
  shows "reach w' h' \<and> \<not> is_alive w' e"
  using assms
proof (induction rule: rtranclp_induct2)
  case refl
  then show ?case by simp
next
  case (step a b aa ba)
  then have r: "reach a b" and d: "\<not> is_alive a e" by simp_all
  have s: "step (a, b) (aa, ba)" and n: "create_entity a \<noteq> (e, aa)"
    using step.hyps(2) by (simp_all add: step_without_reissue_def)
  have wf: "wf_World a" using reach_invariant [OF r] by simp
  have "\<not> is_alive aa e" using step_revives [OF wf s d] n by blast
  then show ?case using reach_step [OF r s] by simp
qed

section \<open>The claims\<close>

subsection \<open>The small worlds are reachable\<close>

lemma world1_eq:
  "world1 = \<lparr>alive = [True], nextEntity = 1, pools = [], typeMap = Map.empty, typeCounter = 0\<rparr>"
  by (simp add: world1_def create_entity_def new_World_def ensureEntity_def resize_def Let_def)

lemma world2_eq:
  "world2 = \<lparr>alive = [True], nextEntity = 1,
             pools = [Some \<lparr>data = [5], mask_flags = [True], fill_value = 0\<rparr>],
             typeMap = [1 \<mapsto> 0], typeCounter = 1\<rparr>"
  by (simp add: world2_def world1_eq add_component_def getTypeId_def ensurePool_def
      ensureSize_def resize_def type_A_def Let_def)

lemma add_world1: "add_component type_A world1 0 5 = Some (OK, world2)"
  by (simp add: world2_eq world1_eq add_component_def getTypeId_def ensurePool_def
      ensureSize_def resize_def type_A_def Let_def)

lemma reach_world1: "reach world1 \<lparr>created = {0}, attached = {}\<rparr>"
proof -
  have "create_entity (new_World :: int World) = (0, world1)"
    by (simp add: world1_def create_entity_def new_World_def Let_def)
  then have "step (new_World :: int World, \<lparr>created = {}, attached = {}\<rparr>)
      (world1, \<lparr>created = {}, attached = {}\<rparr>\<lparr>created := insert 0 (created \<lparr>created = {}, attached = {}\<rparr>)\<rparr>)"
    by (rule step_create)
  then show ?thesis using reach_step [OF reach_new] by simp
qed

lemma reach_world2: "reach world2 \<lparr>created = {0}, attached = {1}\<rparr>"
proof -
  have "step (world1, \<lparr>created = {0}, attached = {}\<rparr>)
      (world2, \<lparr>created = {0}, attached = {}\<rparr>\<lparr>attached := insert (hash_code type_A) (attached \<lparr>created = {0}, attached = {}\<rparr>)\<rparr>)"
    using add_world1 by (rule step_add_ok)
  then show ?thesis using reach_step [OF reach_world1] by (simp add: type_A_def)
qed

subsection \<open>The tests of the repository\<close>

text \<open>
  The test cases of the repository, run on the model, with \<open>type_A\<close> for
  \<^verbatim>\<open>Position\<close> and \<open>type_B\<close> for \<^verbatim>\<open>Velocity\<close>: entity creation and destruction,
  component add, get and remove, and the two queries.
\<close>

lemma test_entity_creation_and_destruction:
  "fst (create_entity (new_World :: int World)) = 0 \<and>
   fst (create_entity (snd (create_entity (new_World :: int World)))) = 1 \<and>
   map_option fst (get_component type_A (creates 2 new_World) 0) = Some None \<and>
   map_option fst (add_component type_A (destroy_entity (creates 2 new_World) 0) 0 1) = Some ERROR"
  by (simp add: numeral_2_eq_2 create_entity_def ensureEntity_def resize_def new_World_def
      get_component_def getTypeId_def type_A_def destroy_entity_def add_component_def Let_def)

lemma test_component_add_get_remove:
  "map_option fst (get_component type_A world1 0) = Some None \<and>
   add_component type_A world1 0 5 = Some (OK, world2) \<and>
   map_option fst (get_component type_A world2 0) = Some (Some 5) \<and>
   fst (remove_component type_A world2 0) = OK \<and>
   map_option fst (get_component type_A (snd (remove_component type_A world2 0)) 0) = Some None"
  by (simp add: add_world1)
     (simp add: world1_eq world2_eq get_component_def remove_component_def getTypeId_def
      type_A_def resize_def)

lemma test_query_with_single_component:
  "map_option fst
     (query [type_A]
        (snd (the (add_component type_B
           (snd (the (add_component type_A
              (snd (the (add_component type_A (creates 2 new_World) 0 0))) 1 5))) 1 1)))
        keep)
   = Some [(0, [0]), (1, [5])]"
  by (simp add: numeral_2_eq_2 create_entity_def ensureEntity_def resize_def new_World_def
      add_component_def ensurePool_def ensureSize_def getTypeId_def type_A_def type_B_def
      query_def query_loop.simps probe_def write_back_def store_at_def keep_def Let_def)

lemma test_query_with_multiple_components:
  "map_option fst
     (query [type_A, type_B]
        (snd (the (add_component type_A
           (snd (the (add_component type_B
              (snd (the (add_component type_A (creates 2 new_World) 0 0))) 0 1))) 1 5)))
        keep)
   = Some [(0, [0, 1])]"
  by (simp add: numeral_2_eq_2 create_entity_def ensureEntity_def resize_def new_World_def
      add_component_def ensurePool_def ensureSize_def getTypeId_def type_A_def type_B_def
      query_def query_loop.simps probe_def write_back_def store_at_def keep_def Let_def)

subsection \<open>C1: the entities a query visits\<close>

text \<open>
  C1 says that for every world and every type list the query visits exactly the
  alive entities whose presence flags are set in all pools. In the world with one
  entity and no component, the query for a type that was never attached resolves a
  slot holding no pool and dereferences it for the alive entity 0: the call is
  undefined. On the same world and type \<^verbatim>\<open>get_component\<close> and \<^verbatim>\<open>remove_component\<close>,
  which test the slot for null first, report absent and \<^verbatim>\<open>ERROR\<close>.
\<close>

theorem query_unattached_type_undefined:
  "is_alive world1 0 \<and> query [type_A] world1 keep = None \<and>
   map_option fst (get_component type_A world1 0) = Some None \<and>
   fst (remove_component type_A world1 0) = ERROR"
  by (simp add: world1_eq is_alive_def query_def query_loop.simps getTypeId_def type_A_def
      resize_def probe_def get_component_def remove_component_def)

subsection \<open>C2: when a pool is created\<close>

text \<open>
  C2 says that the pool of \<^verbatim>\<open>T\<close> is created by the first \<^verbatim>\<open>add_component\<close>,
  \<^verbatim>\<open>get_component\<close>, \<^verbatim>\<open>remove_component\<close> or \<^verbatim>\<open>query\<close> that touches \<^verbatim>\<open>T\<close>.
  On a new world the first use of a type by \<^verbatim>\<open>get_component\<close> reserves slot 0 of
  the pool table and leaves it null: no pool exists afterwards.
\<close>

theorem get_component_creates_no_pool:
  "get_component type_A (new_World :: int World) 0
     = Some (None, \<lparr>alive = [], nextEntity = 0, pools = [None],
                    typeMap = [hash_code type_A \<mapsto> 0], typeCounter = 1\<rparr>)
   \<and> pool_of \<lparr>alive = [], nextEntity = 0, pools = [None :: int Pool option],
               typeMap = [hash_code type_A \<mapsto> 0], typeCounter = 1\<rparr> (hash_code type_A) = None"
  by (simp add: get_component_def getTypeId_def new_World_def type_A_def resize_def pool_of_def)

text \<open>
  C2, amended: in every reachable world the pool of a type exists exactly when an
  \<^verbatim>\<open>add_component\<close> of that type has returned \<^verbatim>\<open>OK\<close>. So the pool is created
  by the first successful \<^verbatim>\<open>add_component<T>\<close>, no pool exists before it, and
  \<^verbatim>\<open>get_component\<close>, \<^verbatim>\<open>remove_component\<close> and a failing \<^verbatim>\<open>add_component\<close>
  create none.
\<close>

theorem pool_exists_iff_attached:
  assumes "reach w h"
  shows "pool_of w k \<noteq> None \<longleftrightarrow> k \<in> attached h"
  using reach_invariant [OF assms] by (auto simp: hist_ok_def)

theorem pool_exists_iff_attached_witness:
  "reach world2 \<lparr>created = {0}, attached = {1}\<rparr>
   \<and> pool_of world2 1 \<noteq> None \<and> pool_of world2 2 = None"
  using pool_exists_iff_attached [OF reach_world2, of 1]
    pool_exists_iff_attached [OF reach_world2, of 2] reach_world2
  by simp

subsection \<open>C3: what a negative outcome changes\<close>

text \<open>
  C3 says that an operation reporting a negative outcome leaves the world unchanged.
  \<^verbatim>\<open>remove_component\<close> on a new world returns \<^verbatim>\<open>ERROR\<close> and has registered the
  type: the type counter has moved.
\<close>

theorem remove_component_error_registers_type:
  "fst (remove_component type_A (new_World :: int World) 0) = ERROR
   \<and> typeCounter (snd (remove_component type_A (new_World :: int World) 0))
       \<noteq> typeCounter (new_World :: int World)"
  by (simp add: remove_component_def getTypeId_def new_World_def type_A_def resize_def)



text \<open>
  C3, amended: \<^verbatim>\<open>add_component\<close> returning \<^verbatim>\<open>ERROR\<close> leaves the world unchanged.
  \<^verbatim>\<open>remove_component\<close> returning \<^verbatim>\<open>ERROR\<close> and \<^verbatim>\<open>get_component\<close> reporting absent
  leave the liveness table and the entity counter unchanged and change no pool: the
  pool table at most grows by null entries. They leave the whole world unchanged when
  the type already has a slot; otherwise they register the type under the next slot.
\<close>

theorem negative_outcome_effect:
  "(add_component T w e c = Some (ERROR, w') \<longrightarrow> w' = w) \<and>
   (remove_component T w e = (ERROR, w') \<or> get_component T w e = Some (None, w') \<longrightarrow>
      alive w' = alive w \<and> nextEntity w' = nextEntity w \<and>
      (\<exists>n. pools w' = pools w @ replicate n None) \<and>
      (typeMap w (hash_code T) \<noteq> None \<longrightarrow> w' = w) \<and>
      (typeMap w (hash_code T) = None \<longrightarrow>
         typeMap w' = (typeMap w)(hash_code T \<mapsto> typeCounter w) \<and>
         typeCounter w' = typeCounter w + 1))"
proof (intro conjI impI)
  assume "add_component T w e c = Some (ERROR, w')"
  then show "w' = w" by (simp add: add_component_ERROR)
next
  assume "remove_component T w e = (ERROR, w') \<or> get_component T w e = Some (None, w')"
  then have s: "w' = snd (getTypeId T w)"
  proof
    assume "remove_component T w e = (ERROR, w')"
    then show ?thesis by (rule remove_component_ERROR_world)
  next
    assume "get_component T w e = Some (None, w')"
    then show ?thesis by (rule get_component_world)
  qed
  obtain tid w1 where g: "getTypeId T w = (tid, w1)" by (cases "getTypeId T w")
  have w': "getTypeId T w = (tid, w')" using s g by simp
  note c = getTypeId_cases [OF w']
  show "alive w' = alive w" "nextEntity w' = nextEntity w" using c by auto
  show "\<exists>n. pools w' = pools w @ replicate n None"
  proof (cases "typeMap w (hash_code T)")
    case None
    then show ?thesis using c by auto
  next
    case (Some a)
    then have "pools w' = pools w @ replicate 0 None" using c by auto
    then show ?thesis by blast
  qed
  show "w' = w" if "typeMap w (hash_code T) \<noteq> None" using that c by auto
  show "typeMap w' = (typeMap w)(hash_code T \<mapsto> typeCounter w)"
    if "typeMap w (hash_code T) = None" using that c by auto
  show "typeCounter w' = typeCounter w + 1"
    if "typeMap w (hash_code T) = None" using that c by auto
qed

theorem negative_outcome_effect_witness:
  "add_component type_A (new_World :: int World) 0 5 = Some (ERROR, new_World)
   \<and> remove_component type_A world1 0
       = (ERROR, \<lparr>alive = [True], nextEntity = 1, pools = [None],
                  typeMap = [hash_code type_A \<mapsto> 0], typeCounter = 1\<rparr>)
   \<and> typeMap world1 (hash_code type_A) = None
   \<and> alive \<lparr>alive = [True], nextEntity = 1, pools = [None :: int Pool option],
              typeMap = [hash_code type_A \<mapsto> 0], typeCounter = 1\<rparr> = alive world1
   \<and> typeCounter \<lparr>alive = [True], nextEntity = 1, pools = [None :: int Pool option],
              typeMap = [hash_code type_A \<mapsto> 0], typeCounter = 1\<rparr> = typeCounter world1 + 1"
proof -
  let ?W = "\<lparr>alive = [True], nextEntity = 1, pools = [None :: int Pool option],
              typeMap = [hash_code type_A \<mapsto> 0], typeCounter = 1\<rparr>"
  have a: "add_component type_A (new_World :: int World) 0 5 = Some (ERROR, new_World)"
    by (simp add: add_component_def new_World_def)
  have r: "remove_component type_A world1 0 = (ERROR, ?W)"
    by (simp add: world1_eq remove_component_def getTypeId_def type_A_def resize_def)
  have m: "typeMap world1 (hash_code type_A) = None" by (simp add: world1_eq)
  have "alive ?W = alive world1 \<and> typeCounter ?W = typeCounter world1 + 1"
    using negative_outcome_effect [of type_A world1 0 5 ?W] r m by (simp only: simp_thms)
  then show ?thesis using a r m by (simp only: simp_thms)
qed

subsection \<open>C4: the result of remove\_component\<close>

text \<open>
  C4 says that \<^verbatim>\<open>remove_component<T>(world, e)\<close> returns \<^verbatim>\<open>ERROR\<close> if and only if
  \<^verbatim>\<open>T\<close> was never used against that world. In \<open>world2\<close>, where entity 0 has a
  component of the first type only, \<^verbatim>\<open>get_component\<close> of the second type reports
  absent and registers the type; the type has then been used and has a slot in the
  registry, and \<^verbatim>\<open>remove_component\<close> of that type still returns \<^verbatim>\<open>ERROR\<close>.
\<close>

theorem used_type_without_pool_gives_error:
  "get_component type_B world2 0 = Some (None, fetched_World)
   \<and> typeMap fetched_World (hash_code type_B) = Some 1
   \<and> remove_component type_B fetched_World 0 = (ERROR, fetched_World)"
proof -
  have f: "fetched_World = world2\<lparr>pools := pools world2 @ [None],
             typeMap := [1 \<mapsto> 0, 2 \<mapsto> 1], typeCounter := 2\<rparr>"
    by (simp add: fetched_World_def world2_eq get_component_def getTypeId_def type_B_def resize_def)
  have "get_component type_B world2 0 = Some (None, fetched_World)"
    unfolding f by (simp add: world2_eq get_component_def getTypeId_def type_B_def resize_def)
  moreover have "typeMap fetched_World (hash_code type_B) = Some 1"
    unfolding f by (simp add: type_B_def)
  moreover have "remove_component type_B fetched_World 0 = (ERROR, fetched_World)"
    unfolding f by (simp add: world2_eq remove_component_def getTypeId_def type_B_def)
  ultimately show ?thesis by simp
qed

text \<open>
  C4, amended: in a world reached by the operations of the interface,
  \<^verbatim>\<open>remove_component<T>(world, e)\<close> returns \<^verbatim>\<open>ERROR\<close> if and only if the pool
  of \<^verbatim>\<open>T\<close> was never created in that world, that is, no \<^verbatim>\<open>add_component<T>\<close> has
  returned \<^verbatim>\<open>OK\<close>, whether or not \<^verbatim>\<open>T\<close> was registered by an earlier
  \<^verbatim>\<open>get_component\<close> or \<^verbatim>\<open>remove_component\<close>. In every other case it returns
  \<^verbatim>\<open>OK\<close> and changes nothing but the presence flag of \<^verbatim>\<open>e\<close> in that pool, which it
  clears when \<^verbatim>\<open>e\<close> is within the mask; for any other \<^verbatim>\<open>e\<close> the world stays as it
  is. The stored values of every pool are the same before and after.
\<close>


theorem remove_component_result:
  assumes r: "reach w h"
  shows "(fst (remove_component T w e) = ERROR \<longleftrightarrow> hash_code T \<notin> attached h) \<and>
         (hash_code T \<in> attached h \<longrightarrow>
            (\<exists>tid pl. typeMap w (hash_code T) = Some tid \<and> tid < length (pools w) \<and>
               pools w ! tid = Some pl \<and>
               remove_component T w e =
                 (OK, if unat e < length (mask_flags pl)
                      then w\<lparr>pools := (pools w)[tid :=
                             Some (pl\<lparr>mask_flags := (mask_flags pl)[unat e := False]\<rparr>)]\<rparr>
                      else w))) \<and>
         (\<forall>k. map_option data (pool_of (snd (remove_component T w e)) k) = map_option data (pool_of w k))"
proof -
  have wf: "wf_World w" and h: "hist_ok w h" using reach_invariant [OF r] by auto
  show ?thesis
  proof (cases "pool_of w (hash_code T)")
    case None
    then have n: "hash_code T \<notin> attached h" using h by (simp add: hist_ok_def)
    obtain tid w1 where g: "getTypeId T w = (tid, w1)" by (cases "getTypeId T w")
    have "remove_component T w e = (ERROR, w1)"
      using remove_component_no_pool [OF wf None, of e] g by simp
    then show ?thesis using n getTypeId_wf(5) [OF wf g] by simp
  next
    case (Some pl)
    then have a: "hash_code T \<in> attached h" using h by (simp add: hist_ok_def)
    from remove_component_pool [OF wf Some, where e = e] obtain tid where
      tid: "typeMap w (hash_code T) = Some tid" "tid < length (pools w)"
      and res: "remove_component T w e =
           (OK, if unat e < length (mask_flags pl)
                then w\<lparr>pools := (pools w)[tid := Some (pl\<lparr>mask_flags := (mask_flags pl)[unat e := False]\<rparr>)]\<rparr>
                else w)"
      and p: "\<And>k. pool_of (snd (remove_component T w e)) k =
           (if k = hash_code T then Some (pl\<lparr>mask_flags := (mask_flags pl)[unat e := False]\<rparr>)
            else pool_of w k)"
      by blast
    have pt: "pools w ! tid = Some pl" using pool_of_slot [OF wf tid(1)] Some by simp
    have "\<exists>tid pl. typeMap w (hash_code T) = Some tid \<and> tid < length (pools w) \<and>
               pools w ! tid = Some pl \<and>
               remove_component T w e =
                 (OK, if unat e < length (mask_flags pl)
                      then w\<lparr>pools := (pools w)[tid :=
                             Some (pl\<lparr>mask_flags := (mask_flags pl)[unat e := False]\<rparr>)]\<rparr>
                      else w)"
      using tid pt res by (intro exI [of _ tid] exI [of _ pl]) simp
    moreover have "fst (remove_component T w e) \<noteq> ERROR" using res by simp
    moreover have "\<forall>k. map_option data (pool_of (snd (remove_component T w e)) k) = map_option data (pool_of w k)"
      using p Some by simp
    ultimately show ?thesis using a by simp
  qed
qed

theorem remove_component_result_witness:
  "reach world2 \<lparr>created = {0}, attached = {1}\<rparr>
   \<and> fst (remove_component type_B world2 0) = ERROR
   \<and> remove_component type_A world2 0
       = (OK, world2\<lparr>pools := [Some \<lparr>data = [5], mask_flags = [False], fill_value = 0\<rparr>]\<rparr>)
   \<and> remove_component type_A world2 7 = (OK, world2)"
proof -
  have "fst (remove_component type_B world2 0) = ERROR"
    using remove_component_result [OF reach_world2, of type_B 0] by (simp add: type_B_def)
  moreover have "remove_component type_A world2 0
       = (OK, world2\<lparr>pools := [Some \<lparr>data = [5], mask_flags = [False], fill_value = 0\<rparr>]\<rparr>)"
    using remove_component_result [OF reach_world2, of type_A 0]
    by (simp add: type_A_def) (simp add: world2_eq)
  moreover have "remove_component type_A world2 7 = (OK, world2)"
    using remove_component_result [OF reach_world2, of type_A 7]
    by (simp add: type_A_def) (simp add: world2_eq)
  ultimately show ?thesis using reach_world2 by simp
qed

subsection \<open>C5: when add\_component fails\<close>

text \<open>
  C5 says that after \<^verbatim>\<open>destroy_entity(world, e)\<close> every subsequent
  \<^verbatim>\<open>add_component(world, e, _)\<close> returns \<^verbatim>\<open>ERROR\<close>. After \<open>2 ^ 32\<close> calls of
  \<^verbatim>\<open>create_entity\<close> the counter is 0 again: entity 0 is alive, and once it is
  destroyed \<^verbatim>\<open>add_component\<close> on it returns \<^verbatim>\<open>ERROR\<close>; but the next
  \<^verbatim>\<open>create_entity\<close> returns the ID 0 a second time, and \<^verbatim>\<open>add_component\<close> on it
  then returns \<^verbatim>\<open>OK\<close>.
\<close>

theorem counter_wrap_revives_destroyed_entity:
  "is_alive full_World 0
   \<and> add_component type_A (destroy_entity full_World 0) 0 5
       = Some (ERROR, destroy_entity full_World 0)
   \<and> create_entity (destroy_entity full_World 0) = (0, revived_World)
   \<and> map_option fst (add_component type_A revived_World 0 5) = Some OK"
proof -
  let ?d = "destroy_entity full_World 0"
  have wfd: "wf_World ?d" using wf_full_World by (rule wf_destroy_entity)
  have e: "add_component type_A ?d 0 5 = Some (ERROR, ?d)"
    by (simp add: add_component_def destroy_entity_def)
  have n: "nextEntity ?d = 0" by (simp add: destroy_entity_fields full_World_eq)
  have c: "create_entity ?d = (fst (create_entity ?d), revived_World)"
    by (simp add: revived_World_def)
  note c1 = create_entity_wf [OF wfd c]
  have x: "fst (create_entity ?d) = 0" using c1(2) n by simp
  have c0: "create_entity ?d = (0, revived_World)" using c x by simp
  have al: "is_alive revived_World 0" using c1(7) x by simp
  from add_component_wf [OF c1(1) al, of type_A 5] obtain w' where
    "add_component type_A revived_World 0 5 = Some (OK, w')" by blast
  then have "map_option fst (add_component type_A revived_World 0 5) = Some OK" by simp
  then show ?thesis using alive_full_World e c0 by simp
qed

text \<open>
  C5, amended: in a world reached by the operations of the interface
  \<^verbatim>\<open>add_component<T>(world, e, v)\<close> always returns, and it returns \<^verbatim>\<open>ERROR\<close> if and
  only if \<^verbatim>\<open>e\<close> is out of range of the liveness table or not alive. After
  \<^verbatim>\<open>destroy_entity(world, e)\<close> it returns \<^verbatim>\<open>ERROR\<close> for every type and value and
  leaves the world as it is; no operation makes an entity that is not alive alive,
  except a \<^verbatim>\<open>create_entity\<close> that returns this very ID; so after
  \<^verbatim>\<open>destroy_entity(world, e)\<close> and any sequence of operations in which no
  \<^verbatim>\<open>create_entity\<close> returns \<^verbatim>\<open>e\<close>, \<^verbatim>\<open>add_component\<close> on \<^verbatim>\<open>e\<close> returns
  \<^verbatim>\<open>ERROR\<close> and leaves the world as it is, for every type and value. As long as
  fewer than \<open>2 ^ 32\<close> entities have been created, \<^verbatim>\<open>create_entity\<close> returns an ID
  that was never issued before.
\<close>

theorem add_component_error_iff:
  assumes r: "reach w h"
  shows "(\<exists>s w'. add_component T w e c = Some (s, w') \<and>
                  (s = ERROR \<longleftrightarrow> unat e \<ge> length (alive w) \<or> \<not> alive w ! unat e)) \<and>
         add_component T (destroy_entity w e) e c = Some (ERROR, destroy_entity w e) \<and>
         (\<forall>w' h'. step (w, h) (w', h') \<and> \<not> is_alive w e \<and> is_alive w' e
                   \<longrightarrow> create_entity w = (e, w')) \<and>
         (\<forall>w' h'. rtranclp (step_without_reissue e) (destroy_entity w e, h) (w', h')
                   \<longrightarrow> add_component T w' e c = Some (ERROR, w')) \<and>
         (card (created h) < 2 ^ 32 \<longrightarrow> fst (create_entity w) \<notin> created h)"
proof -
  have wf: "wf_World w" using reach_invariant [OF r] by simp
  have 1: "\<exists>s w'. add_component T w e c = Some (s, w') \<and>
                  (s = ERROR \<longleftrightarrow> unat e \<ge> length (alive w) \<or> \<not> alive w ! unat e)"
  proof (cases "is_alive w e")
    case True
    from add_component_wf [OF wf True, of T c] obtain w' where
      "add_component T w e c = Some (OK, w')" by blast
    then show ?thesis using True by (auto simp: is_alive_def)
  next
    case False
    then have "add_component T w e c = Some (ERROR, w)"
      by (auto simp: add_component_def is_alive_def)
    then show ?thesis using False by (auto simp: is_alive_def)
  qed
  have 2: "add_component T (destroy_entity w e) e c = Some (ERROR, destroy_entity w e)"
    by (simp add: add_component_def destroy_entity_def)
  have 3: "create_entity w = (e, w')"
    if "step (w, h) (w', h')" "\<not> is_alive w e" "is_alive w' e" for w' h'
    using step_revives [OF wf that] .
  have rd: "reach (destroy_entity w e) h" using reach_step [OF r step_destroy] .
  have 4: "add_component T w' e c = Some (ERROR, w')"
    if "rtranclp (step_without_reissue e) (destroy_entity w e, h) (w', h')" for w' h'
    using dead_until_reissued [OF that rd not_alive_destroy_entity]
    by (simp add: add_component_not_alive)
  have 5: "fst (create_entity w) \<notin> created h" if "card (created h) < 2 ^ 32"
    using create_entity_fresh [OF r that] .
  show ?thesis
  proof (intro conjI allI impI)
    show "\<exists>s w'. add_component T w e c = Some (s, w') \<and>
                  (s = ERROR \<longleftrightarrow> unat e \<ge> length (alive w) \<or> \<not> alive w ! unat e)" by (rule 1)
    show "add_component T (destroy_entity w e) e c = Some (ERROR, destroy_entity w e)" by (rule 2)
    show "create_entity w = (e, w')"
      if "step (w, h) (w', h') \<and> \<not> is_alive w e \<and> is_alive w' e" for w' h'
    proof -
      from that have "step (w, h) (w', h')" "\<not> is_alive w e" "is_alive w' e" by simp_all
      then show ?thesis by (rule 3)
    qed
    show "add_component T w' e c = Some (ERROR, w')"
      if "rtranclp (step_without_reissue e) (destroy_entity w e, h) (w', h')" for w' h'
      using that by (rule 4)
    show "fst (create_entity w) \<notin> created h" if "card (created h) < 2 ^ 32"
      using that by (rule 5)
  qed
qed

theorem add_component_error_iff_witness:
  "reach world2 \<lparr>created = {0}, attached = {1}\<rparr>
   \<and> add_component type_B world2 0 3
       = Some (OK, world2\<lparr>pools := [Some \<lparr>data = [5], mask_flags = [True], fill_value = 0\<rparr>,
                                     Some \<lparr>data = [3], mask_flags = [True], fill_value = 0\<rparr>],
                           typeMap := [1 \<mapsto> 0, 2 \<mapsto> 1], typeCounter := 2\<rparr>)
   \<and> add_component type_B world2 1 3 = Some (ERROR, world2)
   \<and> add_component type_B (destroy_entity world2 0) 0 3 = Some (ERROR, destroy_entity world2 0)
   \<and> \<not> is_alive world2 1 \<and> is_alive (snd (create_entity world2)) 1
   \<and> fst (create_entity world2) = 1
   \<and> fst (create_entity (destroy_entity world2 0)) = 1
   \<and> add_component type_B (snd (create_entity (destroy_entity world2 0))) 0 3
       = Some (ERROR, snd (create_entity (destroy_entity world2 0)))
   \<and> card {0 :: Entity} < 2 ^ 32"
proof -
  let ?h = "\<lparr>created = {0 :: Entity}, attached = {1 :: nat}\<rparr>"
  note t = add_component_error_iff [OF reach_world2]
  have a: "add_component type_B world2 0 3
       = Some (OK, world2\<lparr>pools := [Some \<lparr>data = [5], mask_flags = [True], fill_value = 0\<rparr>,
                                     Some \<lparr>data = [3], mask_flags = [True], fill_value = 0\<rparr>],
                           typeMap := [1 \<mapsto> 0, 2 \<mapsto> 1], typeCounter := 2\<rparr>)"
    by (simp add: world2_eq add_component_def getTypeId_def ensurePool_def
      ensureSize_def resize_def type_B_def Let_def)
  have b: "add_component type_B world2 1 3 = Some (ERROR, world2)"
    using t [of type_B 1 3] by (auto simp: world2_eq add_component_def)
  have c: "add_component type_B (destroy_entity world2 0) 0 3 = Some (ERROR, destroy_entity world2 0)"
    using t [of type_B 0 3] by simp
  have d: "\<not> is_alive world2 1" by (simp add: world2_eq is_alive_def)
  have e: "is_alive (snd (create_entity world2)) 1"
    by (simp add: world2_eq is_alive_def create_entity_def ensureEntity_def resize_def Let_def)
  have "step (world2, ?h)
          (snd (create_entity world2),
           ?h\<lparr>created := insert (fst (create_entity world2)) (created ?h)\<rparr>)"
    by (rule step_create) simp
  then have "create_entity world2 = (1, snd (create_entity world2))"
    using t [of type_B 1 3, THEN conjunct2, THEN conjunct2, THEN conjunct1] d e by blast
  then have f: "fst (create_entity world2) = 1" by (metis fst_conv)
  let ?d = "destroy_entity world2 0"
  have x: "fst (create_entity ?d) = 1"
    by (simp add: create_entity_def destroy_entity_def world2_eq Let_def)
  have s: "step (?d, ?h) (snd (create_entity ?d),
             ?h\<lparr>created := insert (fst (create_entity ?d)) (created ?h)\<rparr>)"
    by (rule step_create) simp
  have "create_entity ?d \<noteq> (0, snd (create_entity ?d))"
  proof
    assume "create_entity ?d = (0, snd (create_entity ?d))"
    then have "fst (create_entity ?d) = 0" by (metis fst_conv)
    then show False using x by simp
  qed
  then have "step_without_reissue 0 (?d, ?h) (snd (create_entity ?d),
             ?h\<lparr>created := insert (fst (create_entity ?d)) (created ?h)\<rparr>)"
    using s by (simp add: step_without_reissue_def)
  then have p: "rtranclp (step_without_reissue 0) (?d, ?h) (snd (create_entity ?d),
             ?h\<lparr>created := insert (fst (create_entity ?d)) (created ?h)\<rparr>)"
    by (rule r_into_rtranclp)
  have g: "add_component type_B (snd (create_entity ?d)) 0 3 = Some (ERROR, snd (create_entity ?d))"
    using t [of type_B 0 3, THEN conjunct2, THEN conjunct2, THEN conjunct2, THEN conjunct1,
             rule_format, OF p] .
  have k: "card {0 :: Entity} < 2 ^ 32" by simp
  show ?thesis using reach_world2 a b c d e f x g k by (simp only: simp_thms)
qed


subsection \<open>C6: add, get, remove, add again\<close>

text \<open>
  C6 says that after removing a component and adding a new value, \<^verbatim>\<open>get_component\<close>
  and \<^verbatim>\<open>query\<close> both observe the new value. After \<open>2 ^ 32\<close> calls of
  \<^verbatim>\<open>create_entity\<close> the counter is 0 again: entity 0 is alive, the three calls
  succeed and \<^verbatim>\<open>get_component\<close> returns the new value, but the loop of \<^verbatim>\<open>query\<close>
  runs over no entity and the visitor is never called.
\<close>

theorem counter_wrap_hides_entity_from_query:
  "is_alive full_World 0
   \<and> add_component type_A full_World 0 5 = Some (OK, added_World)
   \<and> remove_component type_A added_World 0 = (OK, removed_World)
   \<and> add_component type_A removed_World 0 6 = Some (OK, readded_World)
   \<and> get_component type_A readded_World 0 = Some (Some 6, readded_World)
   \<and> map_option fst (query [type_A] readded_World keep) = Some []"
proof -
  from readd_chain [OF wf_full_World alive_full_World, of type_A 5 6] obtain w1 w2 w3 where
    c: "add_component type_A full_World 0 5 = Some (OK, w1)"
    "remove_component type_A w1 0 = (OK, w2)"
    "add_component type_A w2 0 6 = Some (OK, w3)"
    "get_component type_A w3 0 = Some (Some 6, w3)"
    and n: "nextEntity w3 = nextEntity full_World"
    by blast
  have 1: "added_World = w1" using c(1) by (simp add: added_World_def)
  have 2: "removed_World = w2" using c(2) 1 by (simp add: removed_World_def)
  have 3: "readded_World = w3" using c(3) 2 by (simp add: readded_World_def)
  have "nextEntity w3 = 0" using n by (simp add: full_World_eq)
  then have "map_option fst (query [type_A] w3 keep) = Some []" by (rule query_counter_0)
  then show ?thesis using alive_full_World c 1 2 3 by simp
qed

text \<open>
  C6, amended: for every alive entity \<^verbatim>\<open>e\<close> of a reachable world, type \<^verbatim>\<open>T\<close> and
  values \<^verbatim>\<open>v\<close>, \<^verbatim>\<open>v'\<close>: \<^verbatim>\<open>add_component\<close> succeeds and \<^verbatim>\<open>get_component\<close> then
  returns \<^verbatim>\<open>v\<close>; after \<^verbatim>\<open>remove_component\<close> it reports absent; after adding \<^verbatim>\<open>v'\<close>
  it returns \<^verbatim>\<open>v'\<close>; and when \<^verbatim>\<open>e\<close> is below the entity counter, the query for
  \<^verbatim>\<open>T\<close> calls every visitor for \<^verbatim>\<open>e\<close> with \<^verbatim>\<open>v'\<close> and with no other value. Every
  alive entity is below the counter as long as fewer than \<open>2 ^ 32\<close> entities have been
  created.
\<close>

theorem add_get_remove_readd:
  assumes r: "reach w h" and al: "is_alive w e"
  shows "(\<exists>w1 w2 w3.
           add_component T w e v = Some (OK, w1) \<and> get_component T w1 e = Some (Some v, w1) \<and>
           remove_component T w1 e = (OK, w2) \<and> get_component T w2 e = Some (None, w2) \<and>
           add_component T w2 e v' = Some (OK, w3) \<and> get_component T w3 e = Some (Some v', w3) \<and>
           (e < nextEntity w \<longrightarrow>
              (\<exists>calls w4. query [T] w3 f = Some (calls, w4) \<and> (e, [v']) \<in> set calls \<and>
                       (\<forall>vs. (e, vs) \<in> set calls \<longrightarrow> vs = [v'])))) \<and>
         (card (created h) < 2 ^ 32 \<longrightarrow> e < nextEntity w)"
proof -
  have wf: "wf_World w" using reach_invariant [OF r] by simp
  from readd_chain [OF wf al, of T v v'] obtain w1 w2 w3 where
    c: "add_component T w e v = Some (OK, w1)" "get_component T w1 e = Some (Some v, w1)"
    "remove_component T w1 e = (OK, w2)" "get_component T w2 e = Some (None, w2)"
    "add_component T w2 e v' = Some (OK, w3)" "get_component T w3 e = Some (Some v', w3)"
    and 3: "wf_World w3" "is_alive w3 e" "nextEntity w3 = nextEntity w"
    "pool_of w3 (hash_code T) \<noteq> None" "component_at w3 (hash_code T) e = Some v'"
    by blast
  have "\<exists>calls w4. query [T] w3 f = Some (calls, w4) \<and> (e, [v']) \<in> set calls \<and>
                       (\<forall>vs. (e, vs) \<in> set calls \<longrightarrow> vs = [v'])" if "e < nextEntity w"
  proof -
    have "e < nextEntity w3" using that 3(3) by simp
    from query_single [OF 3(1) 3(4) 3(2) 3(5) this, of f] show ?thesis by blast
  qed
  then have 1: "\<exists>w1 w2 w3.
           add_component T w e v = Some (OK, w1) \<and> get_component T w1 e = Some (Some v, w1) \<and>
           remove_component T w1 e = (OK, w2) \<and> get_component T w2 e = Some (None, w2) \<and>
           add_component T w2 e v' = Some (OK, w3) \<and> get_component T w3 e = Some (Some v', w3) \<and>
           (e < nextEntity w \<longrightarrow>
              (\<exists>calls w4. query [T] w3 f = Some (calls, w4) \<and> (e, [v']) \<in> set calls \<and>
                       (\<forall>vs. (e, vs) \<in> set calls \<longrightarrow> vs = [v'])))"
    using c by blast
  have 2: "e < nextEntity w" if "card (created h) < 2 ^ 32"
    using alive_below_counter [OF r that al] .
  show ?thesis using 1 2 by blast
qed

theorem add_get_remove_readd_witness:
  "reach world1 \<lparr>created = {0}, attached = {}\<rparr> \<and> is_alive world1 0
   \<and> card {0 :: Entity} < 2 ^ 32 \<and> 0 < nextEntity world1
   \<and> add_component type_A world1 0 5 = Some (OK, world2)
   \<and> get_component type_A world2 0 = Some (Some 5, world2)
   \<and> remove_component type_A world2 0
       = (OK, world2\<lparr>pools := [Some \<lparr>data = [5], mask_flags = [False], fill_value = 0\<rparr>]\<rparr>)
   \<and> get_component type_A (world2\<lparr>pools := [Some \<lparr>data = [5], mask_flags = [False], fill_value = 0\<rparr>]\<rparr>) 0
       = Some (None, world2\<lparr>pools := [Some \<lparr>data = [5], mask_flags = [False], fill_value = 0\<rparr>]\<rparr>)
   \<and> add_component type_A (world2\<lparr>pools := [Some \<lparr>data = [5], mask_flags = [False], fill_value = 0\<rparr>]\<rparr>) 0 6
       = Some (OK, world2\<lparr>pools := [Some \<lparr>data = [6], mask_flags = [True], fill_value = 0\<rparr>]\<rparr>)
   \<and> get_component type_A (world2\<lparr>pools := [Some \<lparr>data = [6], mask_flags = [True], fill_value = 0\<rparr>]\<rparr>) 0
       = Some (Some 6, world2\<lparr>pools := [Some \<lparr>data = [6], mask_flags = [True], fill_value = 0\<rparr>]\<rparr>)
   \<and> query [type_A] (world2\<lparr>pools := [Some \<lparr>data = [6], mask_flags = [True], fill_value = 0\<rparr>]\<rparr>) keep
       = Some ([(0, [6])], world2\<lparr>pools := [Some \<lparr>data = [6], mask_flags = [True], fill_value = 0\<rparr>]\<rparr>)"
proof -
  let ?w2 = "world2\<lparr>pools := [Some \<lparr>data = [5], mask_flags = [False], fill_value = 0\<rparr>]\<rparr>"
  let ?w3 = "world2\<lparr>pools := [Some \<lparr>data = [6], mask_flags = [True], fill_value = 0\<rparr>]\<rparr>"
  have al: "is_alive world1 0" by (simp add: world1_eq is_alive_def)
  note t = add_get_remove_readd [OF reach_world1 al, of type_A 5 6 keep]
  have lt: "0 < nextEntity world1"
    using t [THEN conjunct2] by simp
  have rm: "remove_component type_A world2 0 = (OK, ?w2)"
    by (simp add: world2_eq remove_component_def getTypeId_def type_A_def)
  have ad: "add_component type_A ?w2 0 6 = Some (OK, ?w3)"
    by (simp add: world2_eq add_component_def getTypeId_def ensurePool_def
      ensureSize_def resize_def type_A_def Let_def)
  from t [THEN conjunct1] obtain w1 w2 w3 where
    c: "add_component type_A world1 0 5 = Some (OK, w1)" "get_component type_A w1 0 = Some (Some 5, w1)"
    "remove_component type_A w1 0 = (OK, w2)" "get_component type_A w2 0 = Some (None, w2)"
    "add_component type_A w2 0 6 = Some (OK, w3)" "get_component type_A w3 0 = Some (Some 6, w3)"
    and q: "0 < nextEntity world1 \<longrightarrow>
              (\<exists>calls w4. query [type_A] w3 keep = Some (calls, w4) \<and> (0, [6]) \<in> set calls \<and>
                       (\<forall>vs. (0, vs) \<in> set calls \<longrightarrow> vs = [6]))"
    by blast
  have 1: "w1 = world2" using c(1) add_world1 by simp
  have 2: "w2 = ?w2" using c(3) rm 1 by simp
  have 3: "w3 = ?w3" using c(5) ad 2 by simp
  obtain calls w4 where calls: "query [type_A] ?w3 keep = Some (calls, w4)"
    using q lt 3 by blast
  have qq: "query [type_A] ?w3 keep = Some ([(0, [6])], ?w3)"
    by (simp add: world2_eq query_def query_loop.simps getTypeId_def type_A_def probe_def write_back_def
        store_at_def keep_def)
  have "card {0 :: Entity} < 2 ^ 32" by simp
  then show ?thesis using reach_world1 al lt add_world1 c(2) c(4) c(6) 1 2 3 rm ad qq
    by (simp only: simp_thms)
qed

subsection \<open>C7: destroy\_entity keeps the components\<close>





subsection \<open>C8: the lengths of the pools\<close>



text \<open>
  C8: in every reachable world, both vectors of every pool that exists have as many
  elements as there are entities ever created in that world (the IDs that
  \<^verbatim>\<open>create_entity\<close> has returned), and every public operation leaves each existing
  pool in its slot with vectors no shorter than before.
\<close>

theorem pool_lengths_are_entity_count:
  assumes r: "reach w h"
  shows "(\<forall>tid pl. tid < length (pools w) \<and> pools w ! tid = Some pl \<longrightarrow>
            length (data pl) = card (created h) \<and> length (mask_flags pl) = card (created h)) \<and>
         (\<forall>w' h'. step (w, h) (w', h') \<longrightarrow> pools_grow w w')"
proof (intro conjI allI impI)
  have wf: "wf_World w" and h: "hist_ok w h" using reach_invariant [OF r] by auto
  fix tid pl assume "tid < length (pools w) \<and> pools w ! tid = Some pl"
  then show "length (data pl) = card (created h)" "length (mask_flags pl) = card (created h)"
    using wf_pool_len [OF wf, of tid pl] reach_card_created [OF r] by auto
next
  have wf: "wf_World w" and h: "hist_ok w h" using reach_invariant [OF r] by auto
  fix w' h' assume "step (w, h) (w', h')"
  then show "pools_grow w w'" using step_invariant [OF wf h] by simp
qed

theorem pool_lengths_are_entity_count_witness:
  "reach world2 \<lparr>created = {0}, attached = {1}\<rparr>
   \<and> pools world2 ! 0 = Some \<lparr>data = [5], mask_flags = [True], fill_value = 0\<rparr>
   \<and> length [5 :: int] = card {0 :: Entity} \<and> length [True] = card {0 :: Entity}
   \<and> pools_grow world2 (snd (create_entity world2))"
proof -
  note t = pool_lengths_are_entity_count [OF reach_world2]
  have p: "pools world2 ! 0 = Some \<lparr>data = [5], mask_flags = [True], fill_value = 0\<rparr>"
    by (simp add: world2_eq)
  have "step (world2, \<lparr>created = {0}, attached = {1}\<rparr>)
          (snd (create_entity world2),
           \<lparr>created = {0}, attached = {1}\<rparr>\<lparr>created := insert (fst (create_entity world2))
              (created \<lparr>created = {0}, attached = {1}\<rparr>)\<rparr>)"
    by (rule step_create) simp
  then have g: "pools_grow world2 (snd (create_entity world2))"
    using t [THEN conjunct2] by blast
  have "0 < length (pools world2)" by (simp add: world2_eq)
  then have "length (data \<lparr>data = [5 :: int], mask_flags = [True], fill_value = 0\<rparr>) = card (created \<lparr>created = {0}, attached = {1}\<rparr>)
    \<and> length (mask_flags \<lparr>data = [5 :: int], mask_flags = [True], fill_value = 0\<rparr>) = card (created \<lparr>created = {0}, attached = {1}\<rparr>)"
    using t [THEN conjunct1, rule_format, of 0] p by blast
  then show ?thesis using reach_world2 p g by simp
qed

subsection \<open>C9: the query is defined on attached types\<close>

text \<open>
  C9: in a reachable world, when every type of the list has been attached by a
  successful \<^verbatim>\<open>add_component\<close>, every slot that \<^verbatim>\<open>query\<close> resolves holds a pool
  whose two vectors have the same length, every probe of the loop is defined for
  every entity ID, and the query returns for every visitor (its undefined branch is
  not taken).
\<close>

theorem query_defined_when_attached:
  assumes r: "reach w h" and a: "\<forall>T \<in> set Ts. hash_code T \<in> attached h"
  shows "(\<forall>T \<in> set Ts. \<exists>tid pl. typeMap w (hash_code T) = Some tid \<and> tid < length (pools w) \<and>
            pools w ! tid = Some pl \<and> length (data pl) = length (mask_flags pl) \<and>
            (\<forall>x. probe w x tid \<noteq> None)) \<and>
         fst (getTypeIds Ts w) = map (\<lambda>T. the (typeMap w (hash_code T))) Ts \<and>
         (\<exists>calls w'. query Ts w f = Some (calls, w'))"
proof -
  have wf: "wf_World w" and h: "hist_ok w h" using reach_invariant [OF r] by auto
  have pools: "pool_of w (hash_code T) \<noteq> None" if "T \<in> set Ts" for T
    using that a h by (auto simp: hist_ok_def)
  have 1: "\<exists>tid pl. typeMap w (hash_code T) = Some tid \<and> tid < length (pools w) \<and>
            pools w ! tid = Some pl \<and> length (data pl) = length (mask_flags pl) \<and>
            (\<forall>x. probe w x tid \<noteq> None)" if T: "T \<in> set Ts" for T
  proof -
    obtain pl where pl: "pool_of w (hash_code T) = Some pl" using pools [OF T] by auto
    then obtain tid where tid: "typeMap w (hash_code T) = Some tid" "tid < length (pools w)"
      "pools w ! tid = Some pl"
      using pool_of_SomeD by blast
    have "length (data pl) = length (mask_flags pl)" using wf_pool_len [OF wf tid(2,3)] by simp
    moreover have "probe w x tid \<noteq> None" for x
      using probe_wf [OF wf tid(1), of x] pl by simp
    ultimately show ?thesis using tid by blast
  qed
  have reg: "typeMap w (hash_code T) \<noteq> None" if "T \<in> set Ts" for T
    using 1 [OF that] by auto
  have 2: "fst (getTypeIds Ts w) = map (\<lambda>T. the (typeMap w (hash_code T))) Ts"
    using getTypeIds_registered [of Ts w] reg by simp
  have 3: "\<exists>calls w'. query Ts w f = Some (calls, w')"
    using query_wf [OF wf pools, of Ts f] by blast
  show ?thesis using 1 2 3 by blast
qed

theorem query_defined_when_attached_witness:
  "reach world2 \<lparr>created = {0}, attached = {1}\<rparr>
   \<and> hash_code type_A = 1
   \<and> query [type_A] world2 keep = Some ([(0, [5])], world2)"
proof -
  have a: "\<forall>T \<in> set [type_A]. hash_code T \<in> attached \<lparr>created = {0 :: Entity}, attached = {1}\<rparr>"
    by (simp add: type_A_def)
  have "\<exists>calls w'. query [type_A] world2 keep = Some (calls, w')"
    using query_defined_when_attached [OF reach_world2 a] by (rule conjunct2 [THEN conjunct2])
  moreover have "map_option fst (query [type_A] world2 keep) = Some [(0, [5])]"
    by (simp add: world2_eq query_def query_loop.simps getTypeId_def type_A_def probe_def write_back_def
        store_at_def keep_def)
  moreover have "map_option snd (query [type_A] world2 keep) = Some world2"
    by (simp add: world2_eq query_def query_loop.simps getTypeId_def type_A_def probe_def write_back_def
        store_at_def keep_def)
  ultimately have "query [type_A] world2 keep = Some ([(0, [5])], world2)" by auto
  then show ?thesis using reach_world2 by (simp add: type_A_def)
qed

subsection \<open>C10: what add\_component leaves alone\<close>

text \<open>
  C10: a successful \<^verbatim>\<open>add_component<T>(world, e, v)\<close> in a reachable world changes
  no other association: for every pair of a type and an entity other than
  \<^verbatim>\<open>(T, e)\<close>, \<^verbatim>\<open>get_component\<close> returns, and reports the same (absent, or the same
  value) before and after the call; the liveness table and the entity counter are
  unchanged.
\<close>

theorem add_component_frame:
  assumes r: "reach w h" and ok: "add_component T w e c = Some (OK, w')"
    and other: "hash_code T' \<noteq> hash_code T \<or> e' \<noteq> e"
  shows "(\<exists>res u u'. get_component T' w e' = Some (res, u) \<and> get_component T' w' e' = Some (res, u')) \<and>
         alive w' = alive w \<and> nextEntity w' = nextEntity w"
proof -
  have wf: "wf_World w" using reach_invariant [OF r] by simp
  have al: "is_alive w e" using ok by (rule add_component_OK)
  let ?n = "length (alive w)"
  let ?q = "case pool_of w (hash_code T) of
              None \<Rightarrow> \<lparr>data = replicate ?n (value_init T), mask_flags = replicate ?n False,
                        fill_value = value_init T\<rparr>
            | Some q \<Rightarrow> q"
  let ?pl = "?q\<lparr>data := (data ?q)[unat e := c], mask_flags := (mask_flags ?q)[unat e := True]\<rparr>"
  from add_component_wf [OF wf al, of T c] obtain w'' where
    r'': "add_component T w e c = Some (OK, w'')" and wf'': "wf_World w''"
    and a: "alive w'' = alive w" "nextEntity w'' = nextEntity w"
    and p: "\<And>k. pool_of w'' k = (if k = hash_code T then Some ?pl else pool_of w k)"
    and qlen: "length (data ?q) = ?n" "length (mask_flags ?q) = ?n"
    by blast
  have eq: "w'' = w'" using r'' ok by simp
  let ?get = "\<lambda>w. case pool_of w (hash_code T') of
                 None \<Rightarrow> None
               | Some pl \<Rightarrow> if unat e' < length (mask_flags pl) \<and> mask_flags pl ! unat e'
                            then Some (data pl ! unat e') else None"
  have same: "?get w' = ?get w"
  proof (cases "hash_code T' = hash_code T")
    case False
    then show ?thesis using p [of "hash_code T'"] eq by simp
  next
    case True
    then have ne: "unat e' \<noteq> unat e" using other by (simp add: word_unat_eq_iff)
    have pw': "pool_of w' (hash_code T') = Some ?pl" using p [of "hash_code T'"] eq True by simp
    show ?thesis
    proof (cases "pool_of w (hash_code T)")
      case None
      then show ?thesis using pw' True ne by (simp add: nth_list_update)
    next
      case (Some q)
      then show ?thesis using pw' True ne by (simp add: nth_list_update)
    qed
  qed
  have "get_component T' w e' = Some (?get w, snd (getTypeId T' w))"
    by (rule get_component_wf [OF wf])
  moreover have "get_component T' w' e' = Some (?get w', snd (getTypeId T' w'))"
    using wf'' eq by (intro get_component_wf) simp
  ultimately have "\<exists>res u u'. get_component T' w e' = Some (res, u) \<and> get_component T' w' e' = Some (res, u')"
    using same by simp
  then show ?thesis using a eq by simp
qed

theorem add_component_frame_witness:
  "reach world2 \<lparr>created = {0}, attached = {1}\<rparr>
   \<and> add_component type_B world2 0 3 = Some (OK, snd (the (add_component type_B world2 0 3)))
   \<and> map_option fst (get_component type_A world2 0) = Some (Some 5)
   \<and> map_option fst (get_component type_A (snd (the (add_component type_B world2 0 3))) 0) = Some (Some 5)
   \<and> alive (snd (the (add_component type_B world2 0 3))) = [True]"
proof -
  let ?w = "snd (the (add_component type_B world2 0 3))"
  have ok: "add_component type_B world2 0 3 = Some (OK, ?w)"
    by (simp add: world2_eq add_component_def getTypeId_def ensurePool_def
      ensureSize_def resize_def type_B_def Let_def)
  have ne: "hash_code type_A \<noteq> hash_code type_B \<or> (0 :: Entity) \<noteq> 0"
    by (simp add: type_A_def type_B_def)
  note t = add_component_frame [OF reach_world2 ok ne]
  have g: "map_option fst (get_component type_A world2 0) = Some (Some 5)"
    by (simp add: world2_eq get_component_def getTypeId_def type_A_def)
  have "map_option fst (get_component type_A ?w 0) = Some (Some 5)"
    using t g by auto
  moreover have "alive ?w = [True]" using t by (simp add: world2_eq)
  ultimately show ?thesis using reach_world2 ok g by simp
qed

end
